theory Spec2Isabelle
  imports Main "HOL-Library.Word" "HOL-Library.Sublist"
begin

section \<open>Data model of the capture (Mischief.js)\<close>

text \<open>
  A Node \<^verbatim>\<open>Buffer\<close> is a list of bytes. A \<^verbatim>\<open>Date\<close> is held as the text its
  \<^verbatim>\<open>toISOString()\<close> returns (one text per valid instant), so that the file paths the
  exporter builds from it are plain string concatenations.
\<close>

type_synonym buffer = "8 word list"
type_synonym date = string

text \<open>\<^verbatim>\<open>Mischief.states\<close>: the enum-like table of lifecycle states.\<close>

datatype state = INIT | SETUP | CAPTURE | TEARDOWN | COMPLETE | PARTIAL | ERROR

text \<open>
  The \<^verbatim>\<open>type\<close> argument of \<^verbatim>\<open>networkInterception\<close>: the proxy callbacks installed by
  \<^verbatim>\<open>setup\<close> pass the strings "request" and "response" and nothing else.
\<close>

datatype direction = Request | Response

text \<open>The parsed message a synthesized exchange carries (the screenshot step fills one in).\<close>

record http_message =
  headers :: "string list"
  versionMajor :: nat
  versionMinor :: nat
  statusCode :: nat
  statusMessage :: string
  body :: buffer

text \<open>
  An exchange as the controller and the exporter read it. \<^verbatim>\<open>id\<close> is \<^verbatim>\<open>?string\<close>
  (\<open>None\<close> is \<^verbatim>\<open>undefined\<close>); \<^verbatim>\<open>requestRaw\<close> and \<^verbatim>\<open>responseRaw\<close> are
  \<^verbatim>\<open>undefined\<close> until the first chunk of that direction arrives. A \<^verbatim>\<open>Buffer\<close> is an
  object and therefore truthy even when it holds no byte, so the tests \<^verbatim>\<open>!ex.responseRaw\<close>,
  \<^verbatim>\<open>ex[prop] ? ... : ...\<close> and \<^verbatim>\<open>if (data)\<close> of the source are tests for \<open>None\<close>.
\<close>

record exchange =
  date :: date
  ex_id :: "string option"
  request :: "http_message option"
  response :: "http_message option"
  requestRaw :: "buffer option"
  responseRaw :: "buffer option"

record log_entry =
  message :: string
  isWarning :: bool
  trace :: string

text \<open>The options the controller and the exporter read (after \<^verbatim>\<open>filterOptions\<close> has cast them).\<close>

record options =
  maxSize :: nat
  grabSecondaryResources :: bool
  autoPlayMedia :: bool
  runSiteSpecificBehaviors :: bool
  autoScroll :: bool
  screenshot :: bool
  provenanceSummary :: bool

text \<open>
  An exchange synthesized by the controller, as the exporter reads it from
  \<^verbatim>\<open>capture.generatedExchanges\<close>: an exchange with a synthetic URL and the
  \<^verbatim>\<open>isEntryPoint\<close> flag.
\<close>

record generated_exchange = exchange +
  gen_url :: string
  isEntryPoint :: bool

text \<open>
  The capture object. \<open>browser\<close> says whether the private field \<^verbatim>\<open>#browser\<close> holds a
  handle. Two fields observe the collaborators and are never read by the code:
  \<open>releases\<close> counts the calls of \<^verbatim>\<open>#browser.close()\<close>, and \<open>begun\<close> lists the indices
  of the pipeline steps whose function has been invoked.
\<close>

record mischief =
  state :: state
  url :: string
  options :: options
  exchanges :: "exchange list"
  logs :: "log_entry list"
  totalSize :: nat
  browser :: bool
  releases :: nat
  begun :: "nat list"

text \<open>
  The capture as the exporter reads it. Beside the fields of the class the exporter
  reads \<^verbatim>\<open>capture.generatedExchanges\<close> and \<^verbatim>\<open>capture.provenanceInfo\<close>, which class
  \<^verbatim>\<open>Mischief\<close> in Mischief.js neither declares nor assigns. A value of this type is a
  capture object that has been given both. An object without a \<^verbatim>\<open>generatedExchanges\<close>
  list, as the class alone builds it, makes the \<^verbatim>\<open>for ... of\<close> loop of the exporter
  throw; it is not a value of this type.
\<close>

record export_input = mischief +
  generatedExchanges :: "generated_exchange list"
  provenanceInfo :: "string option"

datatype error =
  InvalidCapture      \<comment> \<open>the exporter's "`capture` must be a partial or complete Mischief object."\<close>
  | NoBrowser         \<comment> \<open>TypeError: \<^verbatim>\<open>close\<close> read from an undefined \<^verbatim>\<open>#browser\<close>\<close>
  | LaunchRejected    \<comment> \<open>\<^verbatim>\<open>chromium.launch\<close> rejected\<close>
  | PageRejected      \<comment> \<open>\<^verbatim>\<open>newContext\<close> or \<^verbatim>\<open>newPage\<close> rejected\<close>
  | CloseRejected     \<comment> \<open>\<^verbatim>\<open>#browser.close()\<close> rejected\<close>

section \<open>Logging and teardown\<close>

definition addToLogs :: "string \<Rightarrow> bool \<Rightarrow> string \<Rightarrow> mischief \<Rightarrow> mischief" where
  "addToLogs msg warn tr c =
     c\<lparr>logs := logs c @ [\<lparr>message = msg, isWarning = warn, trace = tr\<rparr>]\<rparr>"

text \<open>
  \<^verbatim>\<open>teardown\<close> up to its \<^verbatim>\<open>await\<close>: the guard, the state change, the log entry and the call
  of \<^verbatim>\<open>#browser.close()\<close>. An async function runs synchronously until its first await, so
  this is everything the call in \<^verbatim>\<open>networkInterception\<close>, which is not awaited and whose
  promise is dropped, does before control returns. The first component is the error the
  call raises synchronously (reading \<^verbatim>\<open>close\<close> from an undefined handle).
\<close>

definition teardown :: "mischief \<Rightarrow> error option \<times> mischief" where
  "teardown c =
     (if state c = TEARDOWN then (None, c)
      else
        let c1 = addToLogs ''Closing browser and proxy server.'' False [] (c\<lparr>state := TEARDOWN\<rparr>)
        in if browser c1 then (None, c1\<lparr>releases := releases c1 + 1\<rparr>)
           else (Some NoBrowser, c1))"

section \<open>Exchange selection and ingestion\<close>

text \<open>The predicate of \<^verbatim>\<open>findLast\<close> in \<^verbatim>\<open>getOrInitExchange\<close>.\<close>

definition selects :: "string \<Rightarrow> direction \<Rightarrow> exchange \<Rightarrow> bool" where
  "selects sid type ex = (ex_id ex = Some sid \<and> (type = Response \<or> responseRaw ex = None))"

text \<open>
  \<^verbatim>\<open>Array.prototype.findLast\<close> returns the last element that satisfies the predicate. The
  caller mutates what it gets, so the model returns the element's index.
\<close>

fun findLastIndex :: "('a \<Rightarrow> bool) \<Rightarrow> 'a list \<Rightarrow> nat option" where
  "findLastIndex P [] = None"
| "findLastIndex P (x # xs) =
     (case findLastIndex P xs of
        Some j \<Rightarrow> Some (Suc j)
      | None \<Rightarrow> if P x then Some 0 else None)"

text \<open>\<^verbatim>\<open>new MischiefExchange({id: id})\<close> at the instant \<open>now\<close>.\<close>

definition new_exchange :: "date \<Rightarrow> string \<Rightarrow> exchange" where
  "new_exchange now sid =
     \<lparr>date = now, ex_id = Some sid, request = None, response = None,
      requestRaw = None, responseRaw = None\<rparr>"

definition getOrInitExchange :: "date \<Rightarrow> string \<Rightarrow> direction \<Rightarrow> mischief \<Rightarrow> nat \<times> mischief" where
  "getOrInitExchange now sid type c =
     (case findLastIndex (selects sid type) (exchanges c) of
        Some i \<Rightarrow> (i, c)
      | None \<Rightarrow> (length (exchanges c), c\<lparr>exchanges := exchanges c @ [new_exchange now sid]\<rparr>))"

text \<open>\<^verbatim>\<open>ex[prop] = ex[prop] ? Buffer.concat([ex[prop], data], ...) : data\<close>.\<close>

definition append_raw :: "direction \<Rightarrow> buffer \<Rightarrow> exchange \<Rightarrow> exchange" where
  "append_raw type data ex =
     (case type of
        Request \<Rightarrow>
          ex\<lparr>requestRaw := Some (case requestRaw ex of Some b \<Rightarrow> b @ data | None \<Rightarrow> data)\<rparr>
      | Response \<Rightarrow>
          ex\<lparr>responseRaw := Some (case responseRaw ex of Some b \<Rightarrow> b @ data | None \<Rightarrow> data)\<rparr>)"

text \<open>
  \<^verbatim>\<open>networkInterception(type, data, session)\<close>, called at the instant \<open>now\<close> with
  \<^verbatim>\<open>session._id = sid\<close>. It returns \<^verbatim>\<open>data\<close> and the updated capture.
\<close>

definition networkInterception ::
  "date \<Rightarrow> direction \<Rightarrow> buffer \<Rightarrow> string \<Rightarrow> mischief \<Rightarrow> buffer \<times> mischief" where
  "networkInterception now type data sid c =
     (let (i, c1) = getOrInitExchange now sid type c;
          c2 = c1\<lparr>exchanges := (exchanges c1)[i := append_raw type data (exchanges c1 ! i)],
                  totalSize := totalSize c1 + length data\<rparr>
      in if maxSize (options c2) \<le> totalSize c2 \<and> state c2 = CAPTURE
         then (data, snd (teardown (addToLogs ''Max size reached. Ending further capture.'' False [] c2)))
         else (data, c2))"

text \<open>The raw bytes of one direction, read as a byte sequence (none when absent).\<close>

definition raw :: "direction \<Rightarrow> exchange \<Rightarrow> buffer option" where
  "raw type ex = (case type of Request \<Rightarrow> requestRaw ex | Response \<Rightarrow> responseRaw ex)"

section \<open>The capture pipeline\<close>

text \<open>
  A chunk the proxy hands to \<^verbatim>\<open>networkInterception\<close>: the clock reading, the direction,
  the bytes and \<^verbatim>\<open>session._id\<close>. The callbacks run between the awaits of the controller,
  one at a time.
\<close>

record arrival =
  at :: date
  dir :: direction
  chunk :: buffer
  session :: string

fun deliver :: "arrival list \<Rightarrow> mischief \<Rightarrow> mischief" where
  "deliver [] c = c"
| "deliver (a # as) c =
     deliver as (snd (networkInterception (at a) (dir a) (chunk a) (session a) c))"

text \<open>The pipeline \<^verbatim>\<open>capture()\<close> builds from the options, by the names of its steps.\<close>

datatype step = InitialLoad | BrowserScripts | AutoScroll | Screenshot | NetworkIdle

fun step_name :: "step \<Rightarrow> string" where
  "step_name InitialLoad = ''initial load''"
| "step_name BrowserScripts = ''browser scripts''"
| "step_name AutoScroll = ''auto-scroll''"
| "step_name Screenshot = ''screenshot''"
| "step_name NetworkIdle = ''network idle''"

definition build_steps :: "options \<Rightarrow> step list" where
  "build_steps opts =
     [InitialLoad]
     @ (if grabSecondaryResources opts \<or> autoPlayMedia opts \<or> runSiteSpecificBehaviors opts
        then [BrowserScripts] else [])
     @ (if autoScroll opts then [AutoScroll] else [])
     @ (if screenshot opts then [Screenshot] else [])
     @ [NetworkIdle]"

text \<open>Decimal rendering of a number inside a template string.\<close>

fun string_of_nat :: "nat \<Rightarrow> string" where
  "string_of_nat n =
     (if n < 10 then [''0123456789'' ! n]
      else string_of_nat (n div 10) @ [''0123456789'' ! (n mod 10)])"

declare string_of_nat.simps [simp del]

definition step_label :: "nat \<Rightarrow> step list \<Rightarrow> string" where
  "step_label i steps =
     ''STEP ['' @ string_of_nat (i + 1) @ ''/'' @ string_of_nat (length steps) @ '']: ''
     @ step_name (steps ! i)"

text \<open>
  What the collaborators do while one step's function is awaited: the chunks the proxy
  delivers meanwhile, whether the promise rejects (with the error's text), and, for the
  screenshot step, the image \<^verbatim>\<open>page.screenshot\<close> resolves to and the instant at which the
  exchange is then constructed. The step functions touch the capture only through the
  proxy callbacks, except the screenshot step, which pushes its exchange after the
  screenshot has resolved.
\<close>

record step_env =
  arrivals :: "arrival list"
  rejected :: "string option"
  shot :: buffer
  shot_at :: date

definition screenshot_exchange :: "date \<Rightarrow> buffer \<Rightarrow> exchange" where
  "screenshot_exchange now img =
     \<lparr>date = now, ex_id = None, request = None,
      response = Some \<lparr>headers = [''Content-Type'', ''image/png''], versionMajor = 1,
                       versionMinor = 1, statusCode = 200, statusMessage = ''OK'', body = img\<rparr>,
      requestRaw = None, responseRaw = None\<rparr>"

text \<open>
  One iteration of the body of the \<^verbatim>\<open>do ... while\<close> loop, in three parts: the log entry
  that opens the try block and the invocation of the step's function (\<open>enter_step\<close>), the
  chunks that arrive while the function is awaited, and the way the await ends
  (\<open>finish_step\<close>): the function returns, the screenshot step having pushed its
  exchange, or it throws and the catch block logs one of its two warnings.
\<close>

definition enter_step :: "step list \<Rightarrow> nat \<Rightarrow> mischief \<Rightarrow> mischief" where
  "enter_step steps i c =
     (let c1 = addToLogs (step_label i steps) False [] c in c1\<lparr>begun := begun c1 @ [i]\<rparr>)"

definition finish_step :: "step list \<Rightarrow> step_env \<Rightarrow> nat \<Rightarrow> mischief \<Rightarrow> mischief" where
  "finish_step steps env i c =
     (case rejected env of
        None \<Rightarrow>
          if steps ! i = Screenshot
          then c\<lparr>exchanges := exchanges c @ [screenshot_exchange (shot_at env) (shot env)]\<rparr>
          else c
      | Some err \<Rightarrow>
          if state c = CAPTURE
          then addToLogs (step_label i steps @ '' - failed'') True err c
          else addToLogs (step_label i steps @ '' - ended due to max size reached'') True [] c)"

definition run_step :: "step list \<Rightarrow> step_env \<Rightarrow> nat \<Rightarrow> mischief \<Rightarrow> mischief" where
  "run_step steps env i c = finish_step steps env i (deliver (arrivals env) (enter_step steps i c))"

text \<open>
  \<^verbatim>\<open>do { ... } while (this.state == CAPTURE && i++ < steps.length - 1)\<close>. The loop is entered
  at \<open>i = 0\<close> with at least two steps, so \<open>steps ! i\<close> is always in range.
\<close>

function step_loop :: "step list \<Rightarrow> (nat \<Rightarrow> step_env) \<Rightarrow> nat \<Rightarrow> mischief \<Rightarrow> mischief" where
  "step_loop steps envs i c =
     (let c' = run_step steps (envs i) i c
      in if state c' = CAPTURE \<and> i < length steps - 1
         then step_loop steps envs (Suc i) c'
         else c')"
  by pat_completeness auto
termination
  by (relation "measure (\<lambda>(steps, envs, i, c). length steps - i)") auto

declare step_loop.simps [simp del]

text \<open>
  \<^verbatim>\<open>setup\<close>: the state change, then the launch of the browser and the opening of a page,
  either of which may reject. Chunks can only arrive once the browser runs.
\<close>

datatype setup_outcome = Ready | LaunchFails | PageFails

record setup_env =
  outcome :: setup_outcome
  early :: "arrival list"

definition setup' :: "setup_env \<Rightarrow> mischief \<Rightarrow> error option \<times> mischief" where
  "setup' env c =
     (let c1 = c\<lparr>state := SETUP\<rparr>
      in case outcome env of
           LaunchFails \<Rightarrow> (Some LaunchRejected, c1)
         | PageFails \<Rightarrow> (Some PageRejected, deliver (early env) (c1\<lparr>browser := True\<rparr>))
         | Ready \<Rightarrow> (None, deliver (early env) (c1\<lparr>browser := True\<rparr>)))"

text \<open>
  \<^verbatim>\<open>await this.teardown(page)\<close>: the call above, then, unless the guard returned at once,
  the wait for \<^verbatim>\<open>#browser.close()\<close>, during which chunks may still arrive and which may
  reject.
\<close>

definition await_teardown :: "arrival list \<Rightarrow> bool \<Rightarrow> mischief \<Rightarrow> error option \<times> mischief" where
  "await_teardown late close_rejects c =
     (if state c = TEARDOWN then teardown c
      else case teardown c of
             (Some e, c1) \<Rightarrow> (Some e, c1)
           | (None, c1) \<Rightarrow> (if close_rejects then Some CloseRejected else None, deliver late c1))"

record run_env =
  at_setup :: setup_env
  at_step :: "nat \<Rightarrow> step_env"
  at_close :: "arrival list"
  close_rejects :: bool
  options_json :: string  \<comment> \<open>\<^verbatim>\<open>JSON.stringify(options)\<close>\<close>

text \<open>
  The two statements of \<^verbatim>\<open>capture()\<close> between \<^verbatim>\<open>setup\<close> and the loop: the log entry
  that announces the capture, and the change to \<^verbatim>\<open>CAPTURE\<close>.
\<close>

definition begin_capture :: "run_env \<Rightarrow> mischief \<Rightarrow> mischief" where
  "begin_capture env c =
     (addToLogs (''Starting capture of '' @ url c @ '' with options: '' @ options_json env)
        False [] c)\<lparr>state := CAPTURE\<rparr>"

text \<open>
  \<^verbatim>\<open>capture()\<close>: the value the promise resolves to or the error it rejects with, and the
  capture object as the call leaves it.
\<close>

definition capture :: "run_env \<Rightarrow> mischief \<Rightarrow> (error + state) \<times> mischief" where
  "capture env c =
     (let steps = build_steps (options c)
      in case setup' (at_setup env) c of
           (Some e, c1) \<Rightarrow> (Inl e, c1)
         | (None, c1) \<Rightarrow>
             let c3 = step_loop steps (at_step env) 0 (begin_capture env c1)
             in (case await_teardown (at_close env) (close_rejects env) c3 of
                   (Some e, c4) \<Rightarrow> (Inl e, c4)
                 | (None, c4) \<Rightarrow> (Inr COMPLETE, c4\<lparr>state := COMPLETE\<rparr>)))"

section \<open>The WACZ exporter (exporters/mischiefToWacz.js)\<close>

text \<open>
  Modelled from the spec: the class \<^verbatim>\<open>WACZ\<close> of \<^verbatim>\<open>utils/WACZ.js\<close>, which is not among
  the sources. The archive container is a mapping from logical file path to byte payload,
  a list of page descriptors and an optional metadata-extras block; a new one is empty.
\<close>

record 'p wacz =
  files :: "string \<rightharpoonup> buffer"
  pages :: "'p list"
  datapackageExtras :: "(string \<times> string) list option"

definition new_WACZ :: "'p wacz" where
  "new_WACZ = \<lparr>files = Map.empty, pages = [], datapackageExtras = None\<rparr>"

text \<open>An element of \<^verbatim>\<open>entryPoints\<close>: an exchange of the store or a generated exchange.\<close>

datatype entry = Intercepted exchange | Generated generated_exchange

definition validStates :: "state list" where
  "validStates = [PARTIAL, COMPLETE]"

text \<open>The text \<^verbatim>\<open>${exchange.id}\<close> of a template string.\<close>

definition id_text :: "exchange \<Rightarrow> string" where
  "id_text ex = (case ex_id ex of None \<Rightarrow> ''undefined'' | Some s \<Rightarrow> s)"

fun type_text :: "direction \<Rightarrow> string" where
  "type_text Request = ''request''"
| "type_text Response = ''response''"

definition raw_path :: "direction \<Rightarrow> exchange \<Rightarrow> string" where
  "raw_path type ex = ''raw/'' @ type_text type @ ''_'' @ date ex @ ''_'' @ id_text ex"

text \<open>The inner \<^verbatim>\<open>forEach\<close> over \<^verbatim>\<open>['request', 'response']\<close> for one exchange.\<close>

definition add_raw :: "(string \<rightharpoonup> buffer) \<Rightarrow> exchange \<Rightarrow> (string \<rightharpoonup> buffer)" where
  "add_raw fs ex =
     (let fs1 = (case requestRaw ex of Some d \<Rightarrow> fs(raw_path Request ex \<mapsto> d) | None \<Rightarrow> fs)
      in case responseRaw ex of Some d \<Rightarrow> fs1(raw_path Response ex \<mapsto> d) | None \<Rightarrow> fs1)"

text \<open>
  The body of \<^verbatim>\<open>mischiefToWacz\<close> between the call of \<^verbatim>\<open>capture.toWarc()\<close>, which returned
  \<open>warc\<close>, and the call of \<^verbatim>\<open>wacz.finalize()\<close>: the container that is handed to
  \<^verbatim>\<open>finalize\<close>. \<^verbatim>\<open>mischiefExchangeToPageLine\<close> is not among the sources and is a
  parameter.
\<close>

definition build_wacz :: "buffer \<Rightarrow> (entry \<Rightarrow> 'p) \<Rightarrow> export_input \<Rightarrow> bool \<Rightarrow> 'p wacz" where
  "build_wacz warc toPageLine c includeRaw =
     (let w0 = new_WACZ;
          w1 = w0\<lparr>files := (files w0)(''archive/data.warc'' \<mapsto> warc)\<rparr>;
          w2 = (case provenanceInfo c of
                  Some info \<Rightarrow>
                    if provenanceSummary (options c)
                    then w1\<lparr>datapackageExtras := Some [(''provenanceInfo'', info)]\<rparr>
                    else w1
                | None \<Rightarrow> w1);
          w3 = (if includeRaw then w2\<lparr>files := foldl add_raw (files w2) (exchanges c)\<rparr>
                else w2);
          entryPoints =
            (if length (exchanges c) > 0 then [Intercepted (exchanges c ! 0)] else [])
            @ map Generated (filter isEntryPoint (generatedExchanges c))
      in w3\<lparr>pages := map toPageLine entryPoints\<rparr>)"

text \<open>
  \<^verbatim>\<open>mischiefToWacz(capture, includeRaw)\<close>. \<^verbatim>\<open>capture.toWarc()\<close> and \<^verbatim>\<open>wacz.finalize()\<close>
  are not among the sources either; either may fail, and both are parameters. The
  argument is a capture object by its type, so the \<^verbatim>\<open>instanceof\<close> test always passes.
  The result is \<open>Inl\<close> for the error the guard throws, \<open>Inr (Inl e)\<close> when a callee fails,
  and \<open>Inr (Inr r)\<close> for what \<^verbatim>\<open>finalize\<close> returns.
\<close>

definition mischiefToWacz ::
  "(export_input \<Rightarrow> 'e + buffer) \<Rightarrow> (entry \<Rightarrow> 'p) \<Rightarrow> ('p wacz \<Rightarrow> 'e + 'r) \<Rightarrow> export_input \<Rightarrow> bool
     \<Rightarrow> error + ('e + 'r)" where
  "mischiefToWacz toWarc toPageLine finalize c includeRaw =
     (if state c \<notin> set validStates then Inl InvalidCapture
      else case toWarc c of
        Inl e \<Rightarrow> Inr (Inl e)
      | Inr warc \<Rightarrow> Inr (finalize (build_wacz warc toPageLine c includeRaw)))"

text \<open>
  The test of \<^verbatim>\<open>networkInterception\<close> that decides whether the ingest of \<open>data\<close> tears the
  capture down, read before the counter is incremented.
\<close>

definition breaches :: "buffer \<Rightarrow> mischief \<Rightarrow> bool" where
  "breaches data c = (maxSize (options c) \<le> totalSize c + length data \<and> state c = CAPTURE)"

text \<open>
  \<^verbatim>\<open>new Mischief(url, options)\<close>, given the URL and the options as \<^verbatim>\<open>filterUrl\<close> and
  \<^verbatim>\<open>filterOptions\<close> return them: the field initializers of the class, \<^verbatim>\<open>#browser\<close>
  left undefined.
\<close>

definition new_Mischief :: "string \<Rightarrow> options \<Rightarrow> mischief" where
  "new_Mischief u opts =
     \<lparr>state = INIT, url = u, options = opts, exchanges = [], logs = [], totalSize = 0,
      browser = False, releases = 0, begun = []\<rparr>"

section \<open>The constructor of MischiefExchange (exchanges/MischiefExchange.js)\<close>























text \<open>A concrete configuration and a fresh capture for the worked examples.\<close>

definition demo_options :: options where
  "demo_options =
     \<lparr>maxSize = 4, grabSecondaryResources = False, autoPlayMedia = False,
      runSiteSpecificBehaviors = False, autoScroll = False, screenshot = False,
      provenanceSummary = False\<rparr>"

definition demo_capture :: mischief where
  "demo_capture = new_Mischief ''https://example.com/'' demo_options"

text \<open>A run in which the collaborators succeed and the proxy delivers nothing.\<close>

definition quiet_step :: step_env where
  "quiet_step = \<lparr>arrivals = [], rejected = None, shot = [], shot_at = ''T9''\<rparr>"

definition quiet_run :: run_env where
  "quiet_run =
     \<lparr>at_setup = \<lparr>outcome = Ready, early = []\<rparr>, at_step = (\<lambda>i. quiet_step), at_close = [],
      close_rejects = False, options_json = ''{}''\<rparr>"

text \<open>
  \<open>on_course r c\<close>: the browser runs and the capture is either capturing with \<open>r\<close> calls
  of \<^verbatim>\<open>close\<close> so far, or torn down with exactly one more.
\<close>

definition on_course :: "nat \<Rightarrow> mischief \<Rightarrow> bool" where
  "on_course r c =
     (browser c \<and> (state c = CAPTURE \<and> releases c = r \<or> state c = TEARDOWN \<and> releases c = Suc r))"

text \<open>The two log entries of a budget breach: the notice, and the one \<^verbatim>\<open>teardown\<close> writes.\<close>

definition breach_notice :: log_entry where
  "breach_notice =
     \<lparr>message = ''Max size reached. Ending further capture.'', isWarning = False, trace = []\<rparr>"

definition closing_notice :: log_entry where
  "closing_notice =
     \<lparr>message = ''Closing browser and proxy server.'', isWarning = False, trace = []\<rparr>"

text \<open>The capture object of a run of \<^verbatim>\<open>capture()\<close> at the moment the step loop has ended.\<close>

definition loop_end :: "run_env \<Rightarrow> mischief \<Rightarrow> mischief" where
  "loop_end env c =
     step_loop (build_steps (options c)) (at_step env) 0
       (begin_capture env (snd (setup' (at_setup env) c)))"

section \<open>What an operation keeps\<close>

text \<open>
  \<open>kept e e'\<close>: \<open>e'\<close> is the exchange \<open>e\<close> with, at most, more bytes appended to its raw
  buffers. \<open>retains c c'\<close>: the byte counter has not gone down, and every exchange of
  \<open>c\<close> is still in the store of \<open>c'\<close> at its position, kept in this sense.
\<close>

fun grown :: "buffer option \<Rightarrow> buffer option \<Rightarrow> bool" where
  "grown None _ = True"
| "grown (Some b) None = False"
| "grown (Some b) (Some b') = prefix b b'"

definition kept :: "exchange \<Rightarrow> exchange \<Rightarrow> bool" where
  "kept e e' =
     (date e' = date e \<and> ex_id e' = ex_id e \<and> request e' = request e \<and> response e' = response e
      \<and> grown (requestRaw e) (requestRaw e') \<and> grown (responseRaw e) (responseRaw e'))"

definition retains :: "mischief \<Rightarrow> mischief \<Rightarrow> bool" where
  "retains c c' =
     (totalSize c \<le> totalSize c' \<and> length (exchanges c) \<le> length (exchanges c')
      \<and> list_all2 kept (exchanges c) (take (length (exchanges c)) (exchanges c')))"


section \<open>Lemmas on the operations\<close>

lemma extend_fields [simp]:
  "state (mischief.extend c m) = state c"
  "options (mischief.extend c m) = options c"
  "exchanges (mischief.extend c m) = exchanges c"
  "generatedExchanges (mischief.extend c \<lparr>generatedExchanges = gs, provenanceInfo = info\<rparr>) = gs"
  "provenanceInfo (mischief.extend c \<lparr>generatedExchanges = gs, provenanceInfo = info\<rparr>) = info"
  by (simp_all add: mischief.defs)

lemma findLastIndex_None: "findLastIndex P xs = None \<longleftrightarrow> (\<forall>x \<in> set xs. \<not> P x)"
  by (induction xs) (auto split: option.splits)

lemma findLastIndex_Some:
  "findLastIndex P xs = Some i \<longleftrightarrow>
     i < length xs \<and> P (xs ! i) \<and> (\<forall>j. i < j \<and> j < length xs \<longrightarrow> \<not> P (xs ! j))"
proof (induction xs arbitrary: i)
  case Nil
  show ?case by simp
next
  case (Cons x xs)
  show ?case
  proof (cases "findLastIndex P xs")
    case None
    then have no: "\<forall>y \<in> set xs. \<not> P y" by (simp add: findLastIndex_None)
    show ?thesis
    proof (cases i)
      case 0
      from no have "\<And>j. 0 < j \<Longrightarrow> j < Suc (length xs) \<Longrightarrow> \<not> P ((x # xs) ! j)"
        by (auto simp: nth_Cons')
      with None 0 show ?thesis by auto
    next
      case (Suc k)
      from no have "k < length xs \<Longrightarrow> \<not> P (xs ! k)" by simp
      with None Suc show ?thesis by auto
    qed
  next
    case (Some m)
    with Cons.IH [of m]
    have m: "m < length xs" "P (xs ! m)" "\<forall>j. m < j \<and> j < length xs \<longrightarrow> \<not> P (xs ! j)"
      by auto
    show ?thesis
    proof (cases i)
      case 0
      from m have "\<exists>j. 0 < j \<and> j < length (x # xs) \<and> P ((x # xs) ! j)"
        by (intro exI [of _ "Suc m"]) simp
      with Some 0 show ?thesis by auto
    next
      case (Suc k)
      have "(\<forall>j. Suc k < j \<and> j < length (x # xs) \<longrightarrow> \<not> P ((x # xs) ! j))
              \<longleftrightarrow> (\<forall>j. k < j \<and> j < length xs \<longrightarrow> \<not> P (xs ! j))"
      proof
        assume a: "\<forall>j. Suc k < j \<and> j < length (x # xs) \<longrightarrow> \<not> P ((x # xs) ! j)"
        show "\<forall>j. k < j \<and> j < length xs \<longrightarrow> \<not> P (xs ! j)"
        proof (intro allI impI)
          fix j assume "k < j \<and> j < length xs"
          with a [rule_format, of "Suc j"] show "\<not> P (xs ! j)" by simp
        qed
      next
        assume a: "\<forall>j. k < j \<and> j < length xs \<longrightarrow> \<not> P (xs ! j)"
        show "\<forall>j. Suc k < j \<and> j < length (x # xs) \<longrightarrow> \<not> P ((x # xs) ! j)"
        proof (intro allI impI)
          fix j assume j: "Suc k < j \<and> j < length (x # xs)"
          then obtain j' where "j = Suc j'" by (cases j) auto
          with j a [rule_format, of j'] show "\<not> P ((x # xs) ! j)" by simp
        qed
      qed
      with Some Suc Cons.IH [of k] show ?thesis by simp
    qed
  qed
qed

lemma teardown_fields [simp]:
  "state (snd (teardown c)) = TEARDOWN"
  "exchanges (snd (teardown c)) = exchanges c"
  "totalSize (snd (teardown c)) = totalSize c"
  "options (snd (teardown c)) = options c"
  "begun (snd (teardown c)) = begun c"
  "browser (snd (teardown c)) = browser c"
  by (simp_all add: teardown_def addToLogs_def Let_def)

lemma addToLogs_fields [simp]:
  "state (addToLogs m w t c) = state c"
  "exchanges (addToLogs m w t c) = exchanges c"
  "totalSize (addToLogs m w t c) = totalSize c"
  "options (addToLogs m w t c) = options c"
  "begun (addToLogs m w t c) = begun c"
  "browser (addToLogs m w t c) = browser c"
  "releases (addToLogs m w t c) = releases c"
  "logs (addToLogs m w t c) = logs c @ [\<lparr>message = m, isWarning = w, trace = t\<rparr>]"
  by (simp_all add: addToLogs_def)

lemma getOrInitExchange_index:
  "fst (getOrInitExchange now sid type c) < length (exchanges (snd (getOrInitExchange now sid type c)))"
  by (auto simp: getOrInitExchange_def findLastIndex_Some split: option.splits)

lemma getOrInitExchange_fields [simp]:
  "state (snd (getOrInitExchange now sid type c)) = state c"
  "totalSize (snd (getOrInitExchange now sid type c)) = totalSize c"
  "options (snd (getOrInitExchange now sid type c)) = options c"
  "begun (snd (getOrInitExchange now sid type c)) = begun c"
  "browser (snd (getOrInitExchange now sid type c)) = browser c"
  "releases (snd (getOrInitExchange now sid type c)) = releases c"
  "logs (snd (getOrInitExchange now sid type c)) = logs c"
  by (simp_all add: getOrInitExchange_def split: option.splits)

lemma networkInterception_unfold:
  "snd (networkInterception now type data sid c) =
     (let i = fst (getOrInitExchange now sid type c);
          c1 = snd (getOrInitExchange now sid type c);
          c2 = c1\<lparr>exchanges := (exchanges c1)[i := append_raw type data (exchanges c1 ! i)],
                  totalSize := totalSize c1 + length data\<rparr>
      in if breaches data c
         then snd (teardown (addToLogs ''Max size reached. Ending further capture.'' False [] c2))
         else c2)"
  by (simp add: networkInterception_def breaches_def Let_def split_beta)

lemma networkInterception_fields [simp]:
  "fst (networkInterception now type data sid c) = data"
  "totalSize (snd (networkInterception now type data sid c)) = totalSize c + length data"
  "options (snd (networkInterception now type data sid c)) = options c"
  "begun (snd (networkInterception now type data sid c)) = begun c"
  "browser (snd (networkInterception now type data sid c)) = browser c"
  "state (snd (networkInterception now type data sid c)) =
     (if breaches data c then TEARDOWN else state c)"
  by (simp_all add: networkInterception_unfold Let_def)
     (simp_all add: networkInterception_def Let_def split_beta)

lemma networkInterception_exchanges:
  "exchanges (snd (networkInterception now type data sid c)) =
     (let i = fst (getOrInitExchange now sid type c);
          xs = exchanges (snd (getOrInitExchange now sid type c))
      in xs[i := append_raw type data (xs ! i)])"
  by (simp add: networkInterception_unfold Let_def)

lemma findLastIndex_snoc:
  "findLastIndex P (xs @ [x]) = (if P x then Some (length xs) else findLastIndex P xs)"
  by (induction xs) auto

lemma deliver_append: "deliver (as @ bs) c = deliver bs (deliver as c)"
  by (induction as arbitrary: c) auto

lemma deliver_fields [simp]:
  "totalSize (deliver as c) = totalSize c + sum_list (map (\<lambda>a. length (chunk a)) as)"
  "options (deliver as c) = options c"
  "begun (deliver as c) = begun c"
  "browser (deliver as c) = browser c"
  by (induction as arbitrary: c) auto

lemma deliver_state_settled: "state c \<noteq> CAPTURE \<Longrightarrow> state (deliver as c) = state c"
  by (induction as arbitrary: c) (auto simp: breaches_def)

lemma deliver_state: "state (deliver as c) = state c \<or> state (deliver as c) = TEARDOWN"
proof (induction as arbitrary: c)
  case Nil
  show ?case by simp
next
  case (Cons a as)
  let ?c = "snd (networkInterception (at a) (dir a) (chunk a) (session a) c)"
  show ?case
  proof (cases "breaches (chunk a) c")
    case True
    then have "state ?c = TEARDOWN" by simp
    then have "state (deliver as ?c) = TEARDOWN" by (simp add: deliver_state_settled)
    then show ?thesis by simp
  next
    case False
    with Cons.IH [of ?c] show ?thesis by simp
  qed
qed

lemma grown_refl: "grown b b"
  by (cases b) auto

lemma grown_trans: "grown a b \<Longrightarrow> grown b c \<Longrightarrow> grown a c"
  by (cases a; cases b; cases c) auto

lemma kept_refl: "kept e e"
  by (simp add: kept_def grown_refl)

lemma kept_trans: "kept a b \<Longrightarrow> kept b c \<Longrightarrow> kept a c"
  by (auto simp: kept_def intro: grown_trans)

lemma kept_append_raw: "kept e (append_raw type data e)"
  by (cases type) (auto simp: kept_def append_raw_def grown_refl split: option.splits
                        intro: grown.elims)

lemma retains_nth:
  "retains c c' \<longleftrightarrow>
     totalSize c \<le> totalSize c' \<and> length (exchanges c) \<le> length (exchanges c')
     \<and> (\<forall>i < length (exchanges c). kept (exchanges c ! i) (exchanges c' ! i))"
  by (auto simp: retains_def list_all2_conv_all_nth)

lemma retains_refl: "retains c c"
  by (simp add: retains_nth kept_refl)

lemma retains_trans: "retains a b \<Longrightarrow> retains b c \<Longrightarrow> retains a c"
  unfolding retains_nth
  by (meson kept_trans le_trans less_le_trans)

lemma retains_same:
  "exchanges c' = exchanges c \<Longrightarrow> totalSize c' = totalSize c \<Longrightarrow> retains c c'"
  by (simp add: retains_nth kept_refl)

lemma retains_networkInterception: "retains c (snd (networkInterception now type data sid c))"
proof -
  let ?i = "fst (getOrInitExchange now sid type c)"
  let ?xs = "exchanges (snd (getOrInitExchange now sid type c))"
  have len: "length (exchanges c) \<le> length ?xs"
    by (simp add: getOrInitExchange_def split: option.splits)
  have old: "\<And>j. j < length (exchanges c) \<Longrightarrow> ?xs ! j = exchanges c ! j"
    by (simp add: getOrInitExchange_def nth_append split: option.splits)
  have "\<And>j. j < length (exchanges c) \<Longrightarrow>
          kept (exchanges c ! j) (?xs[?i := append_raw type data (?xs ! ?i)] ! j)"
  proof -
    fix j assume j: "j < length (exchanges c)"
    with len have "j < length ?xs" by simp
    then show "kept (exchanges c ! j) (?xs[?i := append_raw type data (?xs ! ?i)] ! j)"
      using old [OF j] by (cases "j = ?i") (auto simp: kept_refl kept_append_raw)
  qed
  with len show ?thesis
    by (simp add: retains_nth networkInterception_exchanges Let_def)
qed

lemma retains_deliver: "retains c (deliver as c)"
proof (induction as arbitrary: c)
  case Nil
  show ?case by (simp add: retains_refl)
next
  case (Cons a as)
  show ?case
    using retains_trans [OF retains_networkInterception Cons.IH] by simp
qed

lemma retains_teardown: "retains c (snd (teardown c))"
  by (simp add: retains_same)

section \<open>The exporter's state guard\<close>

text \<open>
  C5. Encoding fails with the invalid-state error exactly when the capture's state is
  neither PARTIAL nor COMPLETE, that is, when it is INIT, SETUP, CAPTURE, TEARDOWN or
  ERROR; for a capture in PARTIAL or COMPLETE the guard does not raise (the result is
  whatever the callees \<^verbatim>\<open>toWarc\<close> and \<^verbatim>\<open>finalize\<close> produce).
\<close>

theorem encode_state_guard:
  "((mischiefToWacz toWarc toPageLine finalize c includeRaw = Inl InvalidCapture)
      = (state c \<in> {INIT, SETUP, CAPTURE, TEARDOWN, ERROR}))
   \<and> ((state c \<in> {INIT, SETUP, CAPTURE, TEARDOWN, ERROR}) = (state c \<noteq> PARTIAL \<and> state c \<noteq> COMPLETE))
   \<and> ((\<exists>r. mischiefToWacz toWarc toPageLine finalize c includeRaw = Inr r)
      = (state c = PARTIAL \<or> state c = COMPLETE))"
  by (cases "state c") (auto simp: mischiefToWacz_def validStates_def Let_def split: sum.splits option.splits)

section \<open>Which exchange receives a chunk\<close>

lemma selects_iff:
  "selects sid type ex \<longleftrightarrow>
     ex_id ex = Some sid \<and> (type = Response \<or> type = Request \<and> responseRaw ex = None)"
  by (cases type) (auto simp: selects_def)

lemma ingest_new_session:
  assumes "\<forall>ex \<in> set (exchanges c). \<not> selects sid type ex"
  shows "exchanges (snd (networkInterception now type data sid c))
           = exchanges c @ [append_raw type data (new_exchange now sid)]"
  using assms
  by (simp add: networkInterception_exchanges getOrInitExchange_def
                findLastIndex_None [THEN iffD2] Let_def)

lemma ingest_last:
  assumes "selects sid type ex"
  shows "exchanges (snd (networkInterception now type data sid (c\<lparr>exchanges := xs @ [ex]\<rparr>)))
           = xs @ [append_raw type data ex]"
  using assms
  by (simp add: networkInterception_exchanges getOrInitExchange_def findLastIndex_snoc Let_def)

text \<open>
  C2. The chunk of an ingest goes to the last exchange of the store (the most recently
  created one, since exchanges are only ever appended) whose id equals the session id
  and for which the direction is response, or the direction is request and the exchange
  has no response buffer yet; when no exchange qualifies, a new exchange with that
  session id is appended at the end of the store and receives the chunk. "No response
  bytes yet" is the source's test \<^verbatim>\<open>!ex.responseRaw\<close>: no response chunk has arrived.
  In particular, a request, its response, a second request and its response on one
  session id that the store does not hold yet add exactly two exchanges, the first with
  the first pair of byte sequences and the second with the second pair.
\<close>

theorem ingest_selects_target:
  fixes c :: mischief
  shows
  "(let xs = exchanges c;
        xs' = exchanges (snd (networkInterception now type data sid c));
        P = (\<lambda>ex. ex_id ex = Some sid \<and> (type = Response \<or> type = Request \<and> responseRaw ex = None))
    in (\<exists>i. i < length xs \<and> P (xs ! i) \<and> (\<forall>j. i < j \<and> j < length xs \<longrightarrow> \<not> P (xs ! j))
             \<and> xs' = xs[i := append_raw type data (xs ! i)])
       \<or> ((\<forall>ex \<in> set xs. \<not> P ex) \<and> xs' = xs @ [append_raw type data (new_exchange now sid)]))
   \<and> ((\<forall>ex \<in> set (exchanges c). ex_id ex \<noteq> Some sid) \<longrightarrow>
        exchanges (deliver [\<lparr>at = ta, dir = Request, chunk = qa, session = sid\<rparr>,
                            \<lparr>at = tb, dir = Response, chunk = pa, session = sid\<rparr>,
                            \<lparr>at = tc, dir = Request, chunk = qb, session = sid\<rparr>,
                            \<lparr>at = td, dir = Response, chunk = pb, session = sid\<rparr>] c)
          = exchanges c @ [(new_exchange ta sid)\<lparr>requestRaw := Some qa, responseRaw := Some pa\<rparr>,
                           (new_exchange tc sid)\<lparr>requestRaw := Some qb, responseRaw := Some pb\<rparr>])"
proof (intro conjI impI)
  let ?P = "\<lambda>ex. ex_id ex = Some sid \<and> (type = Response \<or> type = Request \<and> responseRaw ex = None)"
  have P: "selects sid type = ?P"
    by (rule ext) (rule selects_iff)
  show "let xs = exchanges c;
            xs' = exchanges (snd (networkInterception now type data sid c));
            P = ?P
        in (\<exists>i. i < length xs \<and> P (xs ! i) \<and> (\<forall>j. i < j \<and> j < length xs \<longrightarrow> \<not> P (xs ! j))
                 \<and> xs' = xs[i := append_raw type data (xs ! i)])
           \<or> ((\<forall>ex \<in> set xs. \<not> P ex) \<and> xs' = xs @ [append_raw type data (new_exchange now sid)])"
  proof (cases "findLastIndex (selects sid type) (exchanges c)")
    case None
    then have no: "\<forall>ex \<in> set (exchanges c). \<not> selects sid type ex"
      by (simp add: findLastIndex_None)
    from ingest_new_session [OF no] no show ?thesis
      unfolding Let_def P by blast
  next
    case (Some i)
    then have i: "i < length (exchanges c)" "selects sid type (exchanges c ! i)"
      "\<forall>j. i < j \<and> j < length (exchanges c) \<longrightarrow> \<not> selects sid type (exchanges c ! j)"
      by (simp_all add: findLastIndex_Some)
    have "exchanges (snd (networkInterception now type data sid c))
            = (exchanges c)[i := append_raw type data (exchanges c ! i)]"
      using Some by (simp add: networkInterception_exchanges getOrInitExchange_def Let_def)
    with i show ?thesis
      unfolding Let_def P by blast
  qed
next
  assume fresh: "\<forall>ex \<in> set (exchanges c). ex_id ex \<noteq> Some sid"
  let ?xs = "exchanges c"
  let ?e1 = "append_raw Request qa (new_exchange ta sid)"
  let ?e1' = "append_raw Response pa ?e1"
  let ?e2 = "append_raw Request qb (new_exchange tc sid)"
  let ?e2' = "append_raw Response pb ?e2"
  let ?c1 = "snd (networkInterception ta Request qa sid c)"
  let ?c2 = "snd (networkInterception tb Response pa sid ?c1)"
  let ?c3 = "snd (networkInterception tc Request qb sid ?c2)"
  let ?c4 = "snd (networkInterception td Response pb sid ?c3)"
  from fresh have none: "\<And>type. \<forall>ex \<in> set ?xs. \<not> selects sid type ex"
    by (simp add: selects_def)
  have x1: "exchanges ?c1 = ?xs @ [?e1]"
    using ingest_new_session [OF none] .
  have "exchanges (snd (networkInterception tb Response pa sid (?c1\<lparr>exchanges := ?xs @ [?e1]\<rparr>)))
          = ?xs @ [?e1']"
    by (rule ingest_last) (simp add: selects_def append_raw_def new_exchange_def)
  moreover have "?c1\<lparr>exchanges := ?xs @ [?e1]\<rparr> = ?c1"
    using x1 by simp
  ultimately have x2: "exchanges ?c2 = ?xs @ [?e1']"
    by simp
  have "\<forall>ex \<in> set (exchanges ?c2). \<not> selects sid Request ex"
    using none [of Request] by (simp add: x2 selects_def append_raw_def new_exchange_def)
  from ingest_new_session [OF this] have x3: "exchanges ?c3 = ?xs @ [?e1', ?e2]"
    by (simp add: x2)
  have "exchanges (snd (networkInterception td Response pb sid (?c3\<lparr>exchanges := (?xs @ [?e1']) @ [?e2]\<rparr>)))
          = (?xs @ [?e1']) @ [?e2']"
    by (rule ingest_last) (simp add: selects_def append_raw_def new_exchange_def)
  moreover have "?c3\<lparr>exchanges := (?xs @ [?e1']) @ [?e2]\<rparr> = ?c3"
    using x3 by simp
  ultimately have x4: "exchanges ?c4 = ?xs @ [?e1', ?e2']"
    by simp
  show "exchanges (deliver [\<lparr>at = ta, dir = Request, chunk = qa, session = sid\<rparr>,
                            \<lparr>at = tb, dir = Response, chunk = pa, session = sid\<rparr>,
                            \<lparr>at = tc, dir = Request, chunk = qb, session = sid\<rparr>,
                            \<lparr>at = td, dir = Response, chunk = pb, session = sid\<rparr>] c)
          = exchanges c @ [(new_exchange ta sid)\<lparr>requestRaw := Some qa, responseRaw := Some pa\<rparr>,
                           (new_exchange tc sid)\<lparr>requestRaw := Some qb, responseRaw := Some pb\<rparr>]"
    by (simp add: x4) (simp add: append_raw_def new_exchange_def)
qed

theorem ingest_selects_target_witness:
  "exchanges (deliver [\<lparr>at = ''T1'', dir = Request, chunk = [1, 2], session = ''sess-1''\<rparr>,
                       \<lparr>at = ''T2'', dir = Response, chunk = [3], session = ''sess-1''\<rparr>,
                       \<lparr>at = ''T3'', dir = Request, chunk = [4], session = ''sess-1''\<rparr>,
                       \<lparr>at = ''T4'', dir = Response, chunk = [5, 6], session = ''sess-1''\<rparr>]
                demo_capture)
     = [\<lparr>date = ''T1'', ex_id = Some ''sess-1'', request = None, response = None,
         requestRaw = Some [1, 2], responseRaw = Some [3]\<rparr>,
        \<lparr>date = ''T3'', ex_id = Some ''sess-1'', request = None, response = None,
         requestRaw = Some [4], responseRaw = Some [5, 6]\<rparr>]"
  using ingest_selects_target [where c = demo_capture and sid = "''sess-1''"
          and ta = "''T1''" and qa = "[1, 2]" and tb = "''T2''" and pa = "[3]"
          and tc = "''T3''" and qb = "[4]" and td = "''T4''" and pb = "[5, 6]"]
  by (simp add: demo_capture_def new_Mischief_def new_exchange_def)

section \<open>Nothing the controller does loses data\<close>

lemma retains_run_step: "retains c (run_step steps env i c)"
proof -
  let ?c1 = "enter_step steps i c"
  let ?c2 = "deliver (arrivals env) ?c1"
  have a: "retains c ?c1" by (simp add: retains_same enter_step_def Let_def)
  have b: "retains c ?c2" using retains_trans [OF a retains_deliver] .
  have push: "\<And>e. retains ?c2 (?c2\<lparr>exchanges := exchanges ?c2 @ [e]\<rparr>)"
    by (simp add: retains_nth nth_append kept_refl)
  have log: "\<And>m w t. retains ?c2 (addToLogs m w t ?c2)"
    by (simp add: retains_same)
  have "retains ?c2 (finish_step steps env i ?c2)"
    using push log by (simp add: finish_step_def retains_refl split: option.splits)
  from retains_trans [OF b this] show ?thesis
    by (simp add: run_step_def)
qed

lemma retains_step_loop: "retains c (step_loop steps envs i c)"
proof (induction steps envs i c rule: step_loop.induct)
  case (1 steps envs i c)
  let ?c' = "run_step steps (envs i) i c"
  show ?case
  proof (cases "state ?c' = CAPTURE \<and> i < length steps - 1")
    case True
    with "1.IH" [OF refl] have "retains ?c' (step_loop steps envs (Suc i) ?c')" by simp
    from retains_trans [OF retains_run_step this] True show ?thesis
      by (subst step_loop.simps) (simp add: Let_def)
  next
    case False
    then show ?thesis
      by (subst step_loop.simps) (auto simp: Let_def retains_run_step)
  qed
qed

lemma retains_setup: "retains c (snd (setup' env c))"
proof -
  have "\<And>b. retains c (deliver (early env) (c\<lparr>state := SETUP, browser := b\<rparr>))"
    by (rule retains_trans [OF _ retains_deliver]) (simp add: retains_same)
  then show ?thesis
    by (cases "outcome env") (simp_all add: setup'_def Let_def retains_same)
qed

lemma retains_await_teardown: "retains c (snd (await_teardown late rej c))"
proof -
  have "retains c (deliver late (snd (teardown c)))"
    by (rule retains_trans [OF retains_teardown retains_deliver])
  then show ?thesis
    using retains_teardown [of c]
    by (auto simp: await_teardown_def split: prod.splits option.splits)
qed

lemma capture_unfold:
  "capture env c =
     (let s = setup' (at_setup env) c;
          c3 = step_loop (build_steps (options c)) (at_step env) 0 (begin_capture env (snd s));
          t = await_teardown (at_close env) (close_rejects env) c3
      in case fst s of
           Some e \<Rightarrow> (Inl e, snd s)
         | None \<Rightarrow> (case fst t of
                      Some e \<Rightarrow> (Inl e, snd t)
                    | None \<Rightarrow> (Inr COMPLETE, (snd t)\<lparr>state := COMPLETE\<rparr>)))"
proof (cases "setup' (at_setup env) c")
  case (Pair r c1)
  show ?thesis
  proof (cases "await_teardown (at_close env) (close_rejects env)
                  (step_loop (build_steps (options c)) (at_step env) 0 (begin_capture env c1))")
    case t: (Pair r' c4)
    show ?thesis
      by (cases r; cases r') (simp_all add: capture_def Let_def Pair t)
  qed
qed

lemma retains_capture: "retains c (snd (capture env c))"
proof -
  let ?s = "setup' (at_setup env) c"
  let ?c2 = "begin_capture env (snd ?s)"
  let ?c3 = "step_loop (build_steps (options c)) (at_step env) 0 ?c2"
  let ?t = "await_teardown (at_close env) (close_rejects env) ?c3"
  have s: "retains c (snd ?s)" by (rule retains_setup)
  have "retains (snd ?s) ?c2" by (simp add: retains_same begin_capture_def)
  from retains_trans [OF s this] have "retains c ?c2" .
  from retains_trans [OF this retains_step_loop] have "retains c ?c3" .
  from retains_trans [OF this retains_await_teardown] have t: "retains c (snd ?t)" .
  have "retains (snd ?t) ((snd ?t)\<lparr>state := COMPLETE\<rparr>)" by (simp add: retains_same)
  from retains_trans [OF t this] have u: "retains c ((snd ?t)\<lparr>state := COMPLETE\<rparr>)" .
  show ?thesis
    unfolding capture_unfold Let_def
    using s t u by (simp split: option.splits)
qed

section \<open>Accounting of ingested bytes\<close>

lemma ingest_appends:
  fixes c :: mischief and now sid type data
  defines "i \<equiv> fst (getOrInitExchange now sid type c)"
    and "xs \<equiv> exchanges (snd (getOrInitExchange now sid type c))"
    and "xs' \<equiv> exchanges (snd (networkInterception now type data sid c))"
  shows "i < length xs" and "length xs' = length xs"
    and "raw type (xs' ! i) = Some ((case raw type (xs ! i) of None \<Rightarrow> [] | Some b \<Rightarrow> b) @ data)"
    and "\<And>other. other \<noteq> type \<Longrightarrow> raw other (xs' ! i) = raw other (xs ! i)"
    and "\<And>j. j \<noteq> i \<Longrightarrow> xs' ! j = xs ! j"
proof -
  show i: "i < length xs"
    unfolding i_def xs_def by (rule getOrInitExchange_index)
  have xs': "xs' = xs[i := append_raw type data (xs ! i)]"
    unfolding i_def xs_def xs'_def by (simp add: networkInterception_exchanges Let_def)
  show "length xs' = length xs" by (simp add: xs')
  show "raw type (xs' ! i) = Some ((case raw type (xs ! i) of None \<Rightarrow> [] | Some b \<Rightarrow> b) @ data)"
    using i by (cases type) (simp_all add: xs' raw_def append_raw_def split: option.splits)
  show "\<And>other. other \<noteq> type \<Longrightarrow> raw other (xs' ! i) = raw other (xs ! i)"
    using i by (cases type) (auto simp: xs' raw_def append_raw_def split: direction.splits)
  show "\<And>j. j \<noteq> i \<Longrightarrow> xs' ! j = xs ! j"
    by (simp add: xs')
qed

text \<open>
  C3. In any state of the controller, teardown begun or not, every ingested chunk is
  appended to the raw buffer of its direction in the selected exchange (the buffer
  afterwards is the buffer before followed by the chunk; the other direction and every
  other exchange are untouched), and the counter grows by the chunk's length: after the
  chunks of \<open>as\<close> the counter is what it was plus the sum of their lengths, so that a
  fresh capture's counter is the sum of the lengths of all chunks ever ingested. The
  counter never goes down: \<^verbatim>\<open>teardown\<close> leaves it as it is and a whole run of
  \<^verbatim>\<open>capture()\<close> ends with a counter at least as large as at its start.
\<close>

theorem ingest_appends_and_accounts:
  fixes c :: mischief
  shows
  "totalSize (deliver as c) = totalSize c + sum_list (map (\<lambda>a. length (chunk a)) as)
   \<and> totalSize (deliver as (new_Mischief u opts)) = sum_list (map (\<lambda>a. length (chunk a)) as)
   \<and> totalSize c \<le> totalSize (deliver as c)
   \<and> fst (networkInterception now type data sid c) = data
   \<and> (let i = fst (getOrInitExchange now sid type c);
           xs = exchanges (snd (getOrInitExchange now sid type c));
           xs' = exchanges (snd (networkInterception now type data sid c))
       in i < length xs \<and> length xs' = length xs
          \<and> raw type (xs' ! i) = Some ((case raw type (xs ! i) of None \<Rightarrow> [] | Some b \<Rightarrow> b) @ data)
          \<and> (\<forall>other. other \<noteq> type \<longrightarrow> raw other (xs' ! i) = raw other (xs ! i))
          \<and> (\<forall>j. j \<noteq> i \<longrightarrow> xs' ! j = xs ! j))
   \<and> totalSize (snd (teardown c)) = totalSize c
   \<and> totalSize c \<le> totalSize (snd (capture env c))"
proof -
  have "totalSize c \<le> totalSize (snd (capture env c))"
    using retains_capture [of c env] by (simp add: retains_nth)
  moreover have "totalSize (new_Mischief u opts) = 0"
    by (simp add: new_Mischief_def)
  ultimately show ?thesis
    by (simp add: Let_def ingest_appends)
qed

theorem ingest_appends_and_accounts_witness:
  "(let c = deliver [\<lparr>at = ''T1'', dir = Request, chunk = [1, 2], session = ''s''\<rparr>,
                     \<lparr>at = ''T2'', dir = Response, chunk = [3, 4], session = ''s''\<rparr>]
              (demo_capture\<lparr>state := CAPTURE\<rparr>);
        c' = snd (networkInterception ''T3'' Response [5] ''s'' c)
    in state c = TEARDOWN \<and> totalSize c = 4 \<and> totalSize c' = 5
       \<and> map responseRaw (exchanges c) = [Some [3, 4]]
       \<and> map responseRaw (exchanges c') = [Some [3, 4, 5]]
       \<and> map requestRaw (exchanges c') = [Some [1, 2]])"
proof -
  define c where "c = deliver [\<lparr>at = ''T1'', dir = Request, chunk = [1, 2], session = ''s''\<rparr>,
                     \<lparr>at = ''T2'', dir = Response, chunk = [3, 4], session = ''s''\<rparr>]
              (demo_capture\<lparr>state := CAPTURE\<rparr>)"
  have x: "exchanges c = [\<lparr>date = ''T1'', ex_id = Some ''s'', request = None, response = None,
                            requestRaw = Some [1, 2], responseRaw = Some [3, 4]\<rparr>]"
    by (simp add: c_def demo_capture_def demo_options_def new_Mischief_def
          networkInterception_exchanges getOrInitExchange_def selects_def new_exchange_def
          append_raw_def Let_def)
  have s: "state c = TEARDOWN"
    by (simp add: c_def demo_capture_def demo_options_def new_Mischief_def breaches_def)
  have t: "totalSize c = 4"
    by (simp add: c_def demo_capture_def new_Mischief_def)
  have i: "getOrInitExchange ''T3'' ''s'' Response c = (0, c)"
    by (simp add: getOrInitExchange_def x selects_def)
  from ingest_appends_and_accounts [where c = c and now = "''T3''" and type = Response
            and data = "[5]" and sid = "''s''" and as = "[]" and env = quiet_run
            and u = "[]" and opts = demo_options]
  have "raw Response (exchanges (snd (networkInterception ''T3'' Response [5] ''s'' c)) ! 0)
          = Some ([3, 4] @ [5])"
    unfolding Let_def i by (simp add: x raw_def)
  then have "state c = TEARDOWN \<and> totalSize c = 4
       \<and> totalSize (snd (networkInterception ''T3'' Response [5] ''s'' c)) = 5
       \<and> map responseRaw (exchanges c) = [Some [3, 4]]
       \<and> map responseRaw (exchanges (snd (networkInterception ''T3'' Response [5] ''s'' c)))
           = [Some [3, 4, 5]]
       \<and> map requestRaw (exchanges (snd (networkInterception ''T3'' Response [5] ''s'' c)))
           = [Some [1, 2]]"
    by (simp add: s t x raw_def networkInterception_exchanges i append_raw_def)
  then show ?thesis
    unfolding Let_def c_def .
qed

section \<open>Teardown and the course of a run\<close>

lemma teardown_settled: "state c = TEARDOWN \<Longrightarrow> teardown c = (None, c)"
  by (simp add: teardown_def)

lemma teardown_effect:
  "releases (snd (teardown c)) = releases c + (if state c \<noteq> TEARDOWN \<and> browser c then 1 else 0)"
  "logs (snd (teardown c)) = (if state c = TEARDOWN then logs c else logs c @ [closing_notice])"
  "fst (teardown c) = (if state c \<noteq> TEARDOWN \<and> \<not> browser c then Some NoBrowser else None)"
  by (simp_all add: teardown_def addToLogs_def Let_def closing_notice_def)

lemma networkInterception_effect:
  "releases (snd (networkInterception now type data sid c))
     = releases c + (if breaches data c \<and> browser c then 1 else 0)"
  "logs (snd (networkInterception now type data sid c))
     = logs c @ (if breaches data c then [breach_notice, closing_notice] else [])"
  by (simp_all add: networkInterception_unfold Let_def teardown_effect breach_notice_def
                    breaches_def)

lemma deliver_idle:
  assumes "state c \<noteq> CAPTURE"
  shows "releases (deliver as c) = releases c" and "logs (deliver as c) = logs c"
    and "state (deliver as c) = state c"
  using assms
  by (induction as arbitrary: c) (simp_all add: networkInterception_effect breaches_def)

lemma on_course_networkInterception:
  "on_course r c \<Longrightarrow> on_course r (snd (networkInterception now type data sid c))"
  by (auto simp: on_course_def networkInterception_effect breaches_def)

lemma on_course_deliver: "on_course r c \<Longrightarrow> on_course r (deliver as c)"
  by (induction as arbitrary: c) (simp_all add: on_course_networkInterception)

lemma enter_step_fields [simp]:
  "state (enter_step steps i c) = state c"
  "browser (enter_step steps i c) = browser c"
  "releases (enter_step steps i c) = releases c"
  "begun (enter_step steps i c) = begun c @ [i]"
  "exchanges (enter_step steps i c) = exchanges c"
  "totalSize (enter_step steps i c) = totalSize c"
  "options (enter_step steps i c) = options c"
  by (simp_all add: enter_step_def Let_def)

lemma finish_step_fields [simp]:
  "state (finish_step steps env i c) = state c"
  "browser (finish_step steps env i c) = browser c"
  "releases (finish_step steps env i c) = releases c"
  "begun (finish_step steps env i c) = begun c"
  "totalSize (finish_step steps env i c) = totalSize c"
  "options (finish_step steps env i c) = options c"
  by (simp_all add: finish_step_def split: option.splits)

lemma run_step_begun [simp]: "begun (run_step steps env i c) = begun c @ [i]"
  by (simp add: run_step_def)

lemma on_course_run_step: "on_course r c \<Longrightarrow> on_course r (run_step steps env i c)"
proof -
  assume "on_course r c"
  then have "on_course r (enter_step steps i c)" by (simp add: on_course_def)
  then have "on_course r (deliver (arrivals env) (enter_step steps i c))"
    by (rule on_course_deliver)
  then show ?thesis by (simp add: run_step_def on_course_def)
qed

lemma step_loop_stops:
  "state (run_step steps (envs i) i c) \<noteq> CAPTURE \<Longrightarrow>
     step_loop steps envs i c = run_step steps (envs i) i c"
  by (subst step_loop.simps) (simp add: Let_def)

lemma step_loop_advances:
  "state (run_step steps (envs i) i c) = CAPTURE \<Longrightarrow> i < length steps - 1 \<Longrightarrow>
     step_loop steps envs i c = step_loop steps envs (Suc i) (run_step steps (envs i) i c)"
  by (subst step_loop.simps) (simp add: Let_def)

lemma step_loop_last:
  "\<not> i < length steps - 1 \<Longrightarrow> step_loop steps envs i c = run_step steps (envs i) i c"
  by (subst step_loop.simps) (simp add: Let_def)

lemma on_course_step_loop: "on_course r c \<Longrightarrow> on_course r (step_loop steps envs i c)"
proof (induction steps envs i c rule: step_loop.induct)
  case (1 steps envs i c)
  let ?c' = "run_step steps (envs i) i c"
  have c': "on_course r ?c'" using "1.prems" by (rule on_course_run_step)
  show ?case
  proof (cases "state ?c' = CAPTURE \<and> i < length steps - 1")
    case True
    with "1.IH" [OF refl _ c'] have "on_course r (step_loop steps envs (Suc i) ?c')" by simp
    with True show ?thesis by (simp add: step_loop_advances)
  next
    case False
    then have "step_loop steps envs i c = ?c'"
      by (auto simp: step_loop_stops step_loop_last)
    with c' show ?thesis by simp
  qed
qed

lemma setup_effect:
  "fst (setup' env c) = (case outcome env of Ready \<Rightarrow> None | LaunchFails \<Rightarrow> Some LaunchRejected
                         | PageFails \<Rightarrow> Some PageRejected)"
  "releases (snd (setup' env c)) = releases c"
  "state (snd (setup' env c)) = SETUP"
  "outcome env = Ready \<Longrightarrow> browser (snd (setup' env c))"
  "options (snd (setup' env c)) = options c"
  by (cases "outcome env"; simp add: setup'_def Let_def deliver_idle)+

lemma on_course_begin:
  "outcome (at_setup env) = Ready \<Longrightarrow>
     on_course (releases c) (begin_capture env (snd (setup' (at_setup env) c)))"
  by (simp add: on_course_def begin_capture_def setup_effect)

lemma await_teardown_effect:
  assumes "on_course r c"
  shows "state (snd (await_teardown late rej c)) = TEARDOWN"
    and "releases (snd (await_teardown late rej c)) = Suc r"
    and "fst (await_teardown late rej c)
           = (if state c = CAPTURE \<and> rej then Some CloseRejected else None)"
proof -
  have t: "teardown c = (fst (teardown c), snd (teardown c))" by simp
  have idle: "state (snd (teardown c)) \<noteq> CAPTURE" by simp
  show "state (snd (await_teardown late rej c)) = TEARDOWN"
    using assms
    by (subst await_teardown_def, subst (2) t)
       (auto simp: on_course_def teardown_effect deliver_idle [OF idle] split: option.splits)
  show "releases (snd (await_teardown late rej c)) = Suc r"
    using assms
    by (subst await_teardown_def, subst (2) t)
       (auto simp: on_course_def teardown_effect deliver_idle [OF idle] split: option.splits)
  show "fst (await_teardown late rej c)
           = (if state c = CAPTURE \<and> rej then Some CloseRejected else None)"
    using assms
    by (subst await_teardown_def, subst (2) t)
       (auto simp: on_course_def teardown_effect split: option.splits)
qed

lemma on_course_loop_end:
  "outcome (at_setup env) = Ready \<Longrightarrow> on_course (releases c) (loop_end env c)"
  unfolding loop_end_def by (rule on_course_step_loop) (rule on_course_begin)

lemma capture_effect:
  assumes ready: "outcome (at_setup env) = Ready"
  shows "releases (snd (capture env c)) = Suc (releases c)"
    and "fst (capture env c)
           = (if state (loop_end env c) = CAPTURE \<and> close_rejects env
              then Inl CloseRejected else Inr COMPLETE)"
    and "state (snd (capture env c))
           = (if state (loop_end env c) = CAPTURE \<and> close_rejects env then TEARDOWN else COMPLETE)"
    and "begun (snd (capture env c)) = begun (loop_end env c)"
proof -
  let ?t = "await_teardown (at_close env) (close_rejects env) (loop_end env c)"
  note oc = on_course_loop_end [OF ready, of c]
  note eff = await_teardown_effect [OF oc, of "at_close env" "close_rejects env"]
  have s: "fst (setup' (at_setup env) c) = None"
    using ready by (simp add: setup_effect)
  have cap: "capture env c =
      (case fst ?t of Some e \<Rightarrow> (Inl e, snd ?t)
       | None \<Rightarrow> (Inr COMPLETE, (snd ?t)\<lparr>state := COMPLETE\<rparr>))"
    unfolding loop_end_def by (simp add: capture_unfold Let_def s)
  show "releases (snd (capture env c)) = Suc (releases c)"
    using eff by (cases "close_rejects env") (auto simp: cap split: option.splits)
  show "fst (capture env c)
           = (if state (loop_end env c) = CAPTURE \<and> close_rejects env
              then Inl CloseRejected else Inr COMPLETE)"
    using eff by (cases "close_rejects env") (auto simp: cap split: option.splits)
  show "state (snd (capture env c))
           = (if state (loop_end env c) = CAPTURE \<and> close_rejects env then TEARDOWN else COMPLETE)"
    using eff by (cases "close_rejects env") (auto simp: cap split: option.splits)
  have "begun (snd ?t) = begun (loop_end env c)"
    by (auto simp: await_teardown_def teardown_def addToLogs_def Let_def split: option.splits)
  then show "begun (snd (capture env c)) = begun (loop_end env c)"
    by (simp add: cap split: option.splits)
qed

text \<open>
  C7. \<^verbatim>\<open>teardown\<close> invoked while the state is already TEARDOWN does nothing and raises
  nothing, so of any two invocations in a row the second is a no-op: after both, the
  state is TEARDOWN, the closing log entry has been written once and
  \<^verbatim>\<open>#browser.close()\<close> has been called once (not at all when the state was TEARDOWN
  before the first). In particular, after the invocation from a budget breach, the
  awaited invocation at the end of the pipeline returns at once without error and
  without a second release, and a run of \<^verbatim>\<open>capture()\<close> whose setup succeeds calls
  \<^verbatim>\<open>close\<close> exactly once, breach or not, before the state becomes terminal.
\<close>

theorem teardown_idempotent:
  "(state c = TEARDOWN \<longrightarrow> teardown c = (None, c) \<and> await_teardown late rej c = (None, c))
   \<and> teardown (snd (teardown c)) = (None, snd (teardown c))
   \<and> state (snd (teardown (snd (teardown c)))) = TEARDOWN
   \<and> releases (snd (teardown (snd (teardown c))))
       = releases c + (if state c \<noteq> TEARDOWN \<and> browser c then 1 else 0)
   \<and> logs (snd (teardown (snd (teardown c))))
       = (if state c = TEARDOWN then logs c else logs c @ [closing_notice])
   \<and> (breaches data c \<and> browser c \<longrightarrow>
        (let c1 = snd (networkInterception now type data sid c)
         in state c1 = TEARDOWN \<and> releases c1 = releases c + 1
            \<and> await_teardown late rej c1 = (None, c1)))
   \<and> (outcome (at_setup env) = Ready \<longrightarrow>
        releases (snd (capture env c)) = releases c + 1
        \<and> state (snd (capture env c)) \<in> {TEARDOWN, COMPLETE})"
proof -
  have twice: "teardown (snd (teardown c)) = (None, snd (teardown c))"
    by (rule teardown_settled) simp
  have settled: "\<And>c'. state c' = TEARDOWN \<Longrightarrow> await_teardown late rej c' = (None, c')"
    by (simp add: await_teardown_def teardown_settled)
  show ?thesis
    using capture_effect(1,3) [of env c]
    by (simp add: twice settled teardown_settled teardown_effect networkInterception_effect Let_def)
qed

theorem teardown_idempotent_witness:
  "(let c = demo_capture\<lparr>state := CAPTURE, browser := True\<rparr>;
        c1 = snd (teardown c);
        c2 = snd (teardown c1)
    in state c1 = TEARDOWN \<and> releases c1 = 1 \<and> c2 = c1 \<and> fst (teardown c1) = None
       \<and> logs c2 = [closing_notice])
   \<and> releases (snd (capture quiet_run demo_capture)) = 1"
proof -
  have "outcome (at_setup quiet_run) = Ready" by (simp add: quiet_run_def)
  with teardown_idempotent [where c = demo_capture and env = quiet_run and late = "[]"
         and rej = False and data = "[]" and now = "[]" and type = Request and sid = "[]"]
  have a: "releases (snd (capture quiet_run demo_capture)) = 1"
    by (simp add: demo_capture_def new_Mischief_def)
  show ?thesis
    using a teardown_idempotent [where c = "demo_capture\<lparr>state := CAPTURE, browser := True\<rparr>"
         and env = quiet_run and late = "[]" and rej = False and data = "[]" and now = "[]"
         and type = Request and sid = "[]"]
    by (simp add: Let_def demo_capture_def new_Mischief_def teardown_def addToLogs_def
          closing_notice_def)
qed

section \<open>The size budget\<close>

lemma retains_finish_step: "retains c (finish_step steps env i c)"
proof -
  have push: "\<And>e. retains c (c\<lparr>exchanges := exchanges c @ [e]\<rparr>)"
    by (simp add: retains_nth nth_append kept_refl)
  have log: "\<And>m w t. retains c (addToLogs m w t c)"
    by (simp add: retains_same)
  show ?thesis
    using push log by (simp add: finish_step_def retains_refl split: option.splits)
qed

lemma await_teardown_begun [simp]: "begun (snd (await_teardown late rej c)) = begun c"
  by (auto simp: await_teardown_def teardown_def addToLogs_def Let_def split: option.splits)

text \<open>
  C4. Let a chunk arrive while step \<open>i\<close> of the pipeline is awaited, the state still
  being CAPTURE, and let it bring the counter to at least \<open>maxSize\<close> (\<open>breaches\<close>). Then
  the ingest logs the budget notice and triggers \<^verbatim>\<open>teardown\<close>, which logs its own entry,
  sets the state to TEARDOWN and calls \<^verbatim>\<open>close\<close>. The loop then ends with step \<open>i\<close>:
  what is left of it is the delivery of the chunks that still arrive during the step and
  the end of the step's await, and no further step begins, neither in the loop nor in
  the teardown that follows it. Every exchange and every byte ingested before that
  point is retained. The breaching ingest itself removes nothing: it adds the length of
  its chunk to the counter, and the store it leaves is the store it found with the chunk
  appended to the exchange it selected, so the teardown it triggers touches neither.
  From the capture at the start of the step (\<open>c\<close>) to the capture just before the
  breaching chunk (\<open>c1\<close>), from there to the capture after the breach (\<open>cb\<close>), to the
  end of the loop and through the awaited teardown, the exchanges stay in the store at
  their positions with at most more bytes appended, and the counter does not go down.
\<close>

theorem budget_breach_ends_pipeline:
  assumes split: "arrivals (envs i) = pre @ a # post"
    and breach: "breaches (chunk a) (deliver pre (enter_step steps i c))"
  shows "(let c1 = deliver pre (enter_step steps i c);
              cb = snd (networkInterception (at a) (dir a) (chunk a) (session a) c1);
              c_end = step_loop steps envs i c
          in state c1 = CAPTURE \<and> maxSize (options c1) \<le> totalSize cb
             \<and> logs cb = logs c1 @ [breach_notice, closing_notice]
             \<and> state cb = TEARDOWN
             \<and> releases cb = releases c1 + (if browser c1 then 1 else 0)
             \<and> c_end = finish_step steps (envs i) i (deliver post cb)
             \<and> state c_end = TEARDOWN
             \<and> begun c_end = begun c @ [i]
             \<and> begun (snd (await_teardown late rej c_end)) = begun c @ [i]
             \<and> retains cb c_end
             \<and> retains cb (snd (await_teardown late rej c_end))
             \<and> totalSize cb = totalSize c1 + length (chunk a)
             \<and> exchanges cb
                 = (let k = fst (getOrInitExchange (at a) (session a) (dir a) c1);
                        xs = exchanges (snd (getOrInitExchange (at a) (session a) (dir a) c1))
                    in xs[k := append_raw (dir a) (chunk a) (xs ! k)])
             \<and> retains c c1
             \<and> retains c1 cb
             \<and> retains c1 c_end
             \<and> retains c1 (snd (await_teardown late rej c_end)))"
proof -
  define c1 where "c1 = deliver pre (enter_step steps i c)"
  define cb where "cb = snd (networkInterception (at a) (dir a) (chunk a) (session a) c1)"
  from breach have b: "breaches (chunk a) c1" by (simp add: c1_def)
  then have s1: "state c1 = CAPTURE" and m: "maxSize (options c1) \<le> totalSize c1 + length (chunk a)"
    by (simp_all add: breaches_def)
  have sb: "state cb = TEARDOWN" using b by (simp add: cb_def)
  then have idle: "state cb \<noteq> CAPTURE" by simp
  have run: "run_step steps (envs i) i c = finish_step steps (envs i) i (deliver post cb)"
    by (simp add: run_step_def split deliver_append c1_def cb_def)
  have sr: "state (run_step steps (envs i) i c) = TEARDOWN"
    by (simp add: run deliver_idle(3) [OF idle] sb)
  then have loop: "step_loop steps envs i c = finish_step steps (envs i) i (deliver post cb)"
    by (simp add: step_loop_stops run)
  have r1: "retains cb (step_loop steps envs i c)"
    unfolding loop by (rule retains_trans [OF retains_deliver retains_finish_step])
  have r2: "retains cb (snd (await_teardown late rej (step_loop steps envs i c)))"
    by (rule retains_trans [OF r1 retains_await_teardown])
  have bg: "begun (step_loop steps envs i c) = begun c @ [i]"
    using run loop by (metis run_step_begun)
  have r0: "retains c c1"
    unfolding c1_def
    by (rule retains_trans [OF _ retains_deliver]) (simp add: retains_same enter_step_def Let_def)
  have rb: "retains c1 cb"
    unfolding cb_def by (rule retains_networkInterception)
  note r3 = retains_trans [OF rb r1] and r4 = retains_trans [OF rb r2]
  have tb: "totalSize cb = totalSize c1 + length (chunk a)"
    by (simp add: cb_def)
  have xb: "exchanges cb
      = (let k = fst (getOrInitExchange (at a) (session a) (dir a) c1);
             xs = exchanges (snd (getOrInitExchange (at a) (session a) (dir a) c1))
         in xs[k := append_raw (dir a) (chunk a) (xs ! k)])"
    unfolding cb_def by (rule networkInterception_exchanges)
  have "state c1 = CAPTURE \<and> maxSize (options c1) \<le> totalSize cb
         \<and> logs cb = logs c1 @ [breach_notice, closing_notice]
         \<and> state cb = TEARDOWN
         \<and> releases cb = releases c1 + (if browser c1 then 1 else 0)"
    using b s1 m sb by (simp add: cb_def networkInterception_effect)
  moreover have "state (step_loop steps envs i c) = TEARDOWN"
    using sr run loop by simp
  ultimately have first: "state c1 = CAPTURE \<and> maxSize (options c1) \<le> totalSize cb
         \<and> logs cb = logs c1 @ [breach_notice, closing_notice]
         \<and> state cb = TEARDOWN
         \<and> releases cb = releases c1 + (if browser c1 then 1 else 0)
         \<and> step_loop steps envs i c = finish_step steps (envs i) i (deliver post cb)
         \<and> state (step_loop steps envs i c) = TEARDOWN
         \<and> begun (step_loop steps envs i c) = begun c @ [i]
         \<and> begun (snd (await_teardown late rej (step_loop steps envs i c))) = begun c @ [i]"
    using loop bg by simp
  from first r1 r2 tb xb r0 rb r3 r4 show ?thesis
    unfolding Let_def c1_def [symmetric] cb_def [symmetric]
    by (intro conjI) (blast | assumption)+
qed

theorem budget_breach_ends_pipeline_witness:
  "(let c0 = demo_capture\<lparr>state := CAPTURE, browser := True\<rparr>;
        envs = (\<lambda>k. quiet_step\<lparr>arrivals :=
                  [\<lparr>at = ''T1'', dir = Request, chunk = [1, 2], session = ''s''\<rparr>,
                   \<lparr>at = ''T2'', dir = Response, chunk = [3, 4], session = ''s''\<rparr>,
                   \<lparr>at = ''T3'', dir = Response, chunk = [5], session = ''s''\<rparr>]\<rparr>);
        c_end = step_loop (build_steps demo_options) envs 0 c0
    in begun c_end = [0] \<and> state c_end = TEARDOWN \<and> totalSize c_end = 5
       \<and> map requestRaw (exchanges c_end) = [Some [1, 2]]
       \<and> map responseRaw (exchanges c_end) = [Some [3, 4, 5]]
       \<and> map message (logs c_end)
           = [''STEP [1/2]: initial load'', ''Max size reached. Ending further capture.'',
              ''Closing browser and proxy server.''])"
proof -
  define c0 where "c0 = demo_capture\<lparr>state := CAPTURE, browser := True\<rparr>"
  define r1 where "r1 = \<lparr>at = ''T1'', dir = Request, chunk = [1, 2 :: 8 word], session = ''s''\<rparr>"
  define r2 where "r2 = \<lparr>at = ''T2'', dir = Response, chunk = [3, 4 :: 8 word], session = ''s''\<rparr>"
  define r3 where "r3 = \<lparr>at = ''T3'', dir = Response, chunk = [5 :: 8 word], session = ''s''\<rparr>"
  define envs where "envs = (\<lambda>k :: nat. quiet_step\<lparr>arrivals := [r1, r2, r3]\<rparr>)"
  define steps where "steps = build_steps demo_options"
  define c1 where "c1 = deliver [r1] (enter_step steps 0 c0)"
  have steps: "steps = [InitialLoad, NetworkIdle]"
    by (simp add: steps_def build_steps_def demo_options_def)
  have label: "step_label 0 steps = ''STEP [1/2]: initial load''"
    by (simp add: step_label_def steps string_of_nat.simps)
  have c1: "state c1 = CAPTURE" "totalSize c1 = 2" "maxSize (options c1) = 4"
    "exchanges c1 = [\<lparr>date = ''T1'', ex_id = Some ''s'', request = None, response = None,
                      requestRaw = Some [1, 2], responseRaw = None\<rparr>]"
    "map message (logs c1) = [''STEP [1/2]: initial load'']"
    by (simp_all add: c1_def c0_def r1_def demo_capture_def demo_options_def new_Mischief_def
          breaches_def networkInterception_exchanges getOrInitExchange_def new_exchange_def
          append_raw_def networkInterception_effect enter_step_def label Let_def)
  have split: "arrivals (envs 0) = [r1] @ r2 # [r3]"
    by (simp add: envs_def)
  have breach: "breaches (chunk r2) (deliver [r1] (enter_step steps 0 c0))"
    unfolding c1_def [symmetric] by (simp add: breaches_def c1 r2_def)
  define cb where "cb = snd (networkInterception (at r2) (dir r2) (chunk r2) (session r2) c1)"
  have res: "rejected (envs 0) = None" "steps ! 0 \<noteq> Screenshot"
    by (simp_all add: envs_def quiet_step_def steps)
  note th = budget_breach_ends_pipeline [where envs = envs and i = 0 and pre = "[r1]" and a = r2
         and post = "[r3]" and steps = steps and c = c0 and late = "[]" and rej = False,
         OF split breach, unfolded Let_def, folded c1_def, folded cb_def]
  from th have "step_loop steps envs 0 c0 = finish_step steps (envs 0) 0 (deliver [r3] cb)"
    by blast
  then have e: "step_loop steps envs 0 c0 = deliver [r3] cb"
    by (simp add: finish_step_def res)
  from th have b: "begun (step_loop steps envs 0 c0) = begun c0 @ [0]"
    and s: "state (step_loop steps envs 0 c0) = TEARDOWN"
    and l: "logs cb = logs c1 @ [breach_notice, closing_notice]"
    and sb: "state cb = TEARDOWN"
    by blast+
  have xb: "exchanges cb = [\<lparr>date = ''T1'', ex_id = Some ''s'', request = None, response = None,
                      requestRaw = Some [1, 2], responseRaw = Some [3, 4]\<rparr>]"
    by (simp add: cb_def r2_def networkInterception_exchanges getOrInitExchange_def c1 selects_def
          append_raw_def Let_def)
  have idle: "state cb \<noteq> CAPTURE" using sb by simp
  define cf where "cf = deliver [r3] cb"
  have x: "exchanges cf = [\<lparr>date = ''T1'', ex_id = Some ''s'', request = None,
                      response = None, requestRaw = Some [1, 2], responseRaw = Some [3, 4, 5]\<rparr>]"
    by (simp add: cf_def r3_def networkInterception_exchanges getOrInitExchange_def xb selects_def
          append_raw_def Let_def)
  have t: "totalSize cf = 5"
    by (simp add: cf_def r3_def cb_def r2_def c1)
  have lg: "map message (logs cf)
      = [''STEP [1/2]: initial load'', ''Max size reached. Ending further capture.'',
         ''Closing browser and proxy server.'']"
    unfolding cf_def deliver_idle(2) [OF idle] l
    by (simp add: c1 breach_notice_def closing_notice_def)
  have b0: "begun c0 = []"
    by (simp add: c0_def demo_capture_def new_Mischief_def)
  have "begun (step_loop steps envs 0 c0) = [0] \<and> state (step_loop steps envs 0 c0) = TEARDOWN
      \<and> totalSize (step_loop steps envs 0 c0) = 5
      \<and> map requestRaw (exchanges (step_loop steps envs 0 c0)) = [Some [1, 2]]
      \<and> map responseRaw (exchanges (step_loop steps envs 0 c0)) = [Some [3, 4, 5]]
      \<and> map message (logs (step_loop steps envs 0 c0))
          = [''STEP [1/2]: initial load'', ''Max size reached. Ending further capture.'',
             ''Closing browser and proxy server.'']"
    unfolding b s unfolding e [folded cf_def] by (simp add: x t lg b0)
  then show ?thesis
    unfolding Let_def c0_def steps_def envs_def r1_def r2_def r3_def .
qed

section \<open>Step failures and the outcome of a run\<close>

lemma step_loop_begins: "\<exists>rest. begun (step_loop steps envs i c) = begun c @ i # rest"
proof (induction steps envs i c rule: step_loop.induct)
  case (1 steps envs i c)
  let ?c' = "run_step steps (envs i) i c"
  show ?case
  proof (cases "state ?c' = CAPTURE \<and> i < length steps - 1")
    case True
    with "1.IH" [OF refl] obtain rest
      where "begun (step_loop steps envs (Suc i) ?c') = begun ?c' @ Suc i # rest" by auto
    with True show ?thesis by (simp add: step_loop_advances)
  next
    case False
    then have "step_loop steps envs i c = ?c'"
      by (auto simp: step_loop_stops step_loop_last)
    then show ?thesis by simp
  qed
qed

lemma run_step_rejected:
  assumes "rejected env = Some err"
  shows "run_step steps env i c =
           addToLogs (step_label i steps
                      @ (if state (deliver (arrivals env) (enter_step steps i c)) = CAPTURE
                         then '' - failed'' else '' - ended due to max size reached''))
             True
             (if state (deliver (arrivals env) (enter_step steps i c)) = CAPTURE then err else [])
             (deliver (arrivals env) (enter_step steps i c))"
  using assms by (simp add: run_step_def finish_step_def)

lemma capture_setup_fails:
  assumes "outcome (at_setup env) \<noteq> Ready"
  shows "fst (capture env c) = (if outcome (at_setup env) = LaunchFails then Inl LaunchRejected
                               else Inl PageRejected)"
    and "state (snd (capture env c)) = SETUP"
    and "begun (snd (capture env c)) = begun c"
    and "releases (snd (capture env c)) = releases c"
  using assms
  by (cases "outcome (at_setup env)";
      simp add: capture_unfold Let_def setup_effect setup'_def deliver_idle)+

lemma quiet_loop:
  "(\<forall>k. arrivals (envs k) = []) \<Longrightarrow> state c = CAPTURE \<Longrightarrow>
     state (step_loop steps envs i c) = CAPTURE"
proof (induction steps envs i c rule: step_loop.induct)
  case (1 steps envs i c)
  let ?c' = "run_step steps (envs i) i c"
  have c': "state ?c' = CAPTURE"
    using "1.prems" by (simp add: run_step_def)
  show ?case
  proof (cases "i < length steps - 1")
    case True
    with "1.IH" [OF refl _ "1.prems"(1) c'] c' show ?thesis by (simp add: step_loop_advances)
  next
    case False
    with c' show ?thesis by (simp add: step_loop_last)
  qed
qed

text \<open>
  C6, as the code has it. A step whose function throws is logged with a warning (the
  failure itself while the state is CAPTURE, the early end once the budget has been
  reached) and changes nothing else; whether a step failed has no part in the loop's
  test, so while the state is CAPTURE and a step is left, the next step begins. When
  setup succeeds, \<^verbatim>\<open>capture()\<close> calls \<^verbatim>\<open>close\<close> exactly once and, unless that call is
  made by the awaited teardown after the loop and rejects, sets the state to COMPLETE
  and returns it. \<^verbatim>\<open>capture()\<close> raises in exactly two cases: setup fails (the launch of
  the browser or the opening of the page rejects), or the loop ends in state CAPTURE and
  the \<^verbatim>\<open>close\<close> of the awaited teardown rejects, which leaves the state at TEARDOWN.
\<close>

theorem step_failure_is_logged_and_run_completes:
  "(rejected (envs i) = Some err \<longrightarrow>
      (let c2 = deliver (arrivals (envs i)) (enter_step steps i c);
           c' = run_step steps (envs i) i c
       in logs c' = logs c2 @ [\<lparr>message = step_label i steps
                                   @ (if state c2 = CAPTURE then '' - failed''
                                      else '' - ended due to max size reached''),
                                 isWarning = True,
                                 trace = (if state c2 = CAPTURE then err else [])\<rparr>]
          \<and> state c' = state c2 \<and> exchanges c' = exchanges c2 \<and> totalSize c' = totalSize c2))
   \<and> (state (run_step steps (envs i) i c) = CAPTURE \<and> i < length steps - 1 \<longrightarrow>
        step_loop steps envs i c = step_loop steps envs (Suc i) (run_step steps (envs i) i c)
        \<and> Suc i \<in> set (begun (step_loop steps envs i c)))
   \<and> fst (capture env c)
       = (case outcome (at_setup env) of
            LaunchFails \<Rightarrow> Inl LaunchRejected
          | PageFails \<Rightarrow> Inl PageRejected
          | Ready \<Rightarrow> if state (loop_end env c) = CAPTURE \<and> close_rejects env
                     then Inl CloseRejected else Inr COMPLETE)
   \<and> (outcome (at_setup env) = Ready \<longrightarrow>
        releases (snd (capture env c)) = releases c + 1
        \<and> state (snd (capture env c))
            = (if state (loop_end env c) = CAPTURE \<and> close_rejects env then TEARDOWN else COMPLETE))
   \<and> (\<not> close_rejects env \<longrightarrow>
        ((\<exists>e. fst (capture env c) = Inl e) \<longleftrightarrow> outcome (at_setup env) \<noteq> Ready)
        \<and> (fst (capture env c) = Inr COMPLETE \<longleftrightarrow> outcome (at_setup env) = Ready))"
proof -
  have logged: "rejected (envs i) = Some err \<Longrightarrow>
      (let c2 = deliver (arrivals (envs i)) (enter_step steps i c);
           c' = run_step steps (envs i) i c
       in logs c' = logs c2 @ [\<lparr>message = step_label i steps
                                   @ (if state c2 = CAPTURE then '' - failed''
                                      else '' - ended due to max size reached''),
                                 isWarning = True,
                                 trace = (if state c2 = CAPTURE then err else [])\<rparr>]
          \<and> state c' = state c2 \<and> exchanges c' = exchanges c2 \<and> totalSize c' = totalSize c2)"
    unfolding Let_def by (subst (1 2 3 4) run_step_rejected, assumption+) simp
  have advance: "state (run_step steps (envs i) i c) = CAPTURE \<and> i < length steps - 1 \<Longrightarrow>
        step_loop steps envs i c = step_loop steps envs (Suc i) (run_step steps (envs i) i c)
        \<and> Suc i \<in> set (begun (step_loop steps envs i c))"
  proof -
    assume a: "state (run_step steps (envs i) i c) = CAPTURE \<and> i < length steps - 1"
    then have eq: "step_loop steps envs i c
        = step_loop steps envs (Suc i) (run_step steps (envs i) i c)"
      by (simp add: step_loop_advances)
    obtain rest where "begun (step_loop steps envs (Suc i) (run_step steps (envs i) i c))
        = begun (run_step steps (envs i) i c) @ Suc i # rest"
      using step_loop_begins by blast
    with eq show ?thesis by simp
  qed
  have outcome: "fst (capture env c)
       = (case outcome (at_setup env) of
            LaunchFails \<Rightarrow> Inl LaunchRejected
          | PageFails \<Rightarrow> Inl PageRejected
          | Ready \<Rightarrow> if state (loop_end env c) = CAPTURE \<and> close_rejects env
                     then Inl CloseRejected else Inr COMPLETE)"
    by (cases "outcome (at_setup env)") (simp_all add: capture_effect(2) capture_setup_fails(1))
  have ready: "outcome (at_setup env) = Ready \<Longrightarrow>
        releases (snd (capture env c)) = releases c + 1
        \<and> state (snd (capture env c))
            = (if state (loop_end env c) = CAPTURE \<and> close_rejects env then TEARDOWN else COMPLETE)"
    by (simp add: capture_effect(1,3))
  have only: "\<not> close_rejects env \<Longrightarrow>
        ((\<exists>e. fst (capture env c) = Inl e) \<longleftrightarrow> outcome (at_setup env) \<noteq> Ready)
        \<and> (fst (capture env c) = Inr COMPLETE \<longleftrightarrow> outcome (at_setup env) = Ready)"
    unfolding outcome by (cases "outcome (at_setup env)") simp_all
  from logged advance outcome ready only show ?thesis
    by blast
qed

text \<open>
  The claim as stated fails: with a setup that succeeds, steps that all succeed and a
  \<^verbatim>\<open>#browser.close()\<close> that rejects in the awaited teardown, \<^verbatim>\<open>capture()\<close> raises to its
  caller and leaves the state at TEARDOWN, not COMPLETE.
\<close>

theorem capture_raises_without_setup_failure:
  "outcome (at_setup (quiet_run\<lparr>close_rejects := True\<rparr>)) = Ready
   \<and> capture (quiet_run\<lparr>close_rejects := True\<rparr>) demo_capture
       = (Inl CloseRejected, snd (capture (quiet_run\<lparr>close_rejects := True\<rparr>) demo_capture))
   \<and> state (snd (capture (quiet_run\<lparr>close_rejects := True\<rparr>) demo_capture)) = TEARDOWN"
proof -
  let ?env = "quiet_run\<lparr>close_rejects := True\<rparr>"
  have r: "outcome (at_setup ?env) = Ready" by (simp add: quiet_run_def)
  have q: "\<forall>k. arrivals (at_step ?env k) = []" by (simp add: quiet_run_def quiet_step_def)
  have "state (loop_end ?env demo_capture) = CAPTURE"
    unfolding loop_end_def by (rule quiet_loop [OF q]) (simp add: begin_capture_def)
  with capture_effect(2,3) [OF r, of demo_capture] r show ?thesis
    by (simp add: prod_eq_iff)
qed

theorem step_failure_is_logged_and_run_completes_witness:
  "(let envs = (\<lambda>k. quiet_step\<lparr>rejected := (if k = 0 then Some ''boom'' else None)\<rparr>);
        env = quiet_run\<lparr>at_step := envs\<rparr>;
        c0 = begin_capture env (snd (setup' (at_setup env) demo_capture));
        steps = build_steps (options demo_capture)
    in map message (logs (run_step steps (envs 0) 0 c0))
         = [''Starting capture of https://example.com/ with options: {}'',
            ''STEP [1/2]: initial load'', ''STEP [1/2]: initial load - failed'']
       \<and> Suc 0 \<in> set (begun (step_loop steps envs 0 c0))
       \<and> fst (capture env demo_capture) = Inr COMPLETE
       \<and> state (snd (capture env demo_capture)) = COMPLETE
       \<and> releases (snd (capture env demo_capture)) = 1)"
proof -
  define envs where "envs = (\<lambda>k :: nat. quiet_step\<lparr>rejected := (if k = 0 then Some ''boom'' else None)\<rparr>)"
  define env where "env = quiet_run\<lparr>at_step := envs\<rparr>"
  define c0 where "c0 = begin_capture env (snd (setup' (at_setup env) demo_capture))"
  define steps where "steps = build_steps (options demo_capture)"
  have steps: "steps = [InitialLoad, NetworkIdle]"
    by (simp add: steps_def build_steps_def demo_capture_def new_Mischief_def demo_options_def)
  have label: "step_label 0 steps = ''STEP [1/2]: initial load''"
    by (simp add: step_label_def steps string_of_nat.simps)
  have c0: "state c0 = CAPTURE" "begun c0 = []" "releases c0 = 0"
    "map message (logs c0) = [''Starting capture of https://example.com/ with options: {}'']"
    by (simp_all add: c0_def env_def quiet_run_def begin_capture_def setup'_def Let_def
          demo_capture_def new_Mischief_def addToLogs_def)
  have rej: "rejected (envs 0) = Some ''boom''" and arr: "arrivals (envs 0) = []"
    by (simp_all add: envs_def quiet_step_def)
  have ready: "outcome (at_setup env) = Ready" and nr: "\<not> close_rejects env"
    by (simp_all add: env_def quiet_run_def)
  note th = step_failure_is_logged_and_run_completes [where envs = envs and i = 0
      and err = "''boom''" and steps = steps and c = c0 and env = env and c = c0]
  note th2 = step_failure_is_logged_and_run_completes [where envs = envs and i = 0
      and err = "''boom''" and steps = steps and c = demo_capture and env = env]
  from th rej have l: "map message (logs (run_step steps (envs 0) 0 c0))
         = [''Starting capture of https://example.com/ with options: {}'',
            ''STEP [1/2]: initial load'', ''STEP [1/2]: initial load - failed'']"
    and s: "state (run_step steps (envs 0) 0 c0) = CAPTURE"
    by (simp_all add: Let_def arr c0 enter_step_def label)
  have "state (run_step steps (envs 0) 0 c0) = CAPTURE \<and> 0 < length steps - 1"
    using s by (simp add: steps)
  with th have n: "Suc 0 \<in> set (begun (step_loop steps envs 0 c0))"
    by blast
  from th2 ready nr have "fst (capture env demo_capture) = Inr COMPLETE
       \<and> state (snd (capture env demo_capture)) = COMPLETE
       \<and> releases (snd (capture env demo_capture)) = 1"
    by (simp add: demo_capture_def new_Mischief_def)
  with l n show ?thesis
    unfolding Let_def envs_def [symmetric] env_def [symmetric] steps_def [symmetric]
      c0_def [symmetric] by simp
qed

section \<open>The exported container\<close>

lemma encode_passes_container:
  "state c \<in> set validStates \<Longrightarrow> toWarc c = Inr warc \<Longrightarrow>
     mischiefToWacz toWarc toPageLine finalize c includeRaw
       = Inr (finalize (build_wacz warc toPageLine c includeRaw))"
  by (simp add: mischiefToWacz_def)

lemma build_wacz_pages:
  "pages (build_wacz warc toPageLine c includeRaw)
     = map toPageLine (map Intercepted (take 1 (exchanges c))
                       @ map Generated (filter isEntryPoint (generatedExchanges c)))"
  by (cases "exchanges c") (simp_all add: build_wacz_def Let_def split: option.splits)

text \<open>
  C8. The page list of the container handed to \<^verbatim>\<open>finalize\<close> is the page line of the
  first exchange of the store, when the store has one, followed by the page lines of
  the generated exchanges whose \<^verbatim>\<open>isEntryPoint\<close> is true, in the order of the list of
  generated exchanges. In particular, with a store that is not empty, an entry-point
  generated exchange (such as the screenshot) appears in the page list after the root
  page.
\<close>

theorem page_list_of_export:
  "(state c \<in> set validStates \<and> toWarc c = Inr warc \<longrightarrow>
      mischiefToWacz toWarc toPageLine finalize c includeRaw
        = Inr (finalize (build_wacz warc toPageLine c includeRaw)))
   \<and> pages (build_wacz warc toPageLine c includeRaw)
       = map toPageLine (map Intercepted (take 1 (exchanges c))
                         @ map Generated (filter isEntryPoint (generatedExchanges c)))
   \<and> (exchanges c = e # es \<longrightarrow>
        pages (build_wacz warc toPageLine c includeRaw)
          = toPageLine (Intercepted e)
            # map (\<lambda>g. toPageLine (Generated g)) (filter isEntryPoint (generatedExchanges c)))
   \<and> (exchanges c = [] \<longrightarrow>
        pages (build_wacz warc toPageLine c includeRaw)
          = map (\<lambda>g. toPageLine (Generated g)) (filter isEntryPoint (generatedExchanges c)))
   \<and> (exchanges c = e # es \<and> g \<in> set (generatedExchanges c) \<and> isEntryPoint g \<longrightarrow>
        hd (pages (build_wacz warc toPageLine c includeRaw)) = toPageLine (Intercepted e)
        \<and> toPageLine (Generated g) \<in> set (tl (pages (build_wacz warc toPageLine c includeRaw))))"
  by (auto simp: encode_passes_container build_wacz_pages)

theorem page_list_of_export_witness:
  "(let e = new_exchange ''T1'' ''s'';
        shot = exchange.extend (screenshot_exchange ''T2'' [7])
                 \<lparr>gen_url = ''file:///screenshot.png'', isEntryPoint = True\<rparr>;
        memo = exchange.extend (screenshot_exchange ''T3'' [8])
                 \<lparr>gen_url = ''file:///note.txt'', isEntryPoint = False\<rparr>;
        c = mischief.extend
              (demo_capture\<lparr>state := COMPLETE, exchanges := [e, new_exchange ''T4'' ''t'']\<rparr>)
              \<lparr>generatedExchanges = [memo, shot], provenanceInfo = None\<rparr>
    in mischiefToWacz (\<lambda>c. Inr [] :: unit + buffer) (\<lambda>x. x) (\<lambda>w. Inr (pages w) :: unit + entry list)
         c False
       = Inr (Inr [Intercepted e, Generated shot]))"
proof -
  define e where "e = new_exchange ''T1'' ''s''"
  define shot where "shot = exchange.extend (screenshot_exchange ''T2'' [7])
                 \<lparr>gen_url = ''file:///screenshot.png'', isEntryPoint = True\<rparr>"
  define memo where "memo = exchange.extend (screenshot_exchange ''T3'' [8])
                 \<lparr>gen_url = ''file:///note.txt'', isEntryPoint = False\<rparr>"
  define c where "c = mischief.extend
              (demo_capture\<lparr>state := COMPLETE, exchanges := [e, new_exchange ''T4'' ''t'']\<rparr>)
              \<lparr>generatedExchanges = [memo, shot], provenanceInfo = None\<rparr>"
  have f: "isEntryPoint shot" "\<not> isEntryPoint memo"
    by (simp_all add: shot_def memo_def exchange.defs)
  have v: "state c \<in> set validStates \<and> (\<lambda>c. Inr [] :: unit + buffer) c = Inr []"
    by (simp add: c_def validStates_def)
  have x: "exchanges c = e # [new_exchange ''T4'' ''t'']" "generatedExchanges c = [memo, shot]"
    by (simp_all add: c_def)
  from page_list_of_export [where c = c and toWarc = "\<lambda>c. Inr [] :: unit + buffer"
         and warc = "[]" and toPageLine = "\<lambda>x. x" and includeRaw = False and e = e
         and es = "[new_exchange ''T4'' ''t'']" and g = shot
         and finalize = "\<lambda>w. Inr (pages w) :: unit + entry list"] v x
  have "mischiefToWacz (\<lambda>c. Inr [] :: unit + buffer) (\<lambda>x. x)
          (\<lambda>w. Inr (pages w) :: unit + entry list) c False
        = Inr (Inr [Intercepted e, Generated shot])"
    by (simp add: f)
  then show ?thesis
    unfolding Let_def e_def [symmetric] shot_def [symmetric] memo_def [symmetric]
      c_def [symmetric] .
qed

section \<open>Raw payloads of the export\<close>

lemma raw_path_directions: "raw_path Request e \<noteq> raw_path Response e'"
  by (simp add: raw_path_def)

lemma raw_path_not_warc: "raw_path d e \<noteq> ''archive/data.warc''"
  by (cases d) (simp_all add: raw_path_def)

lemma add_raw_hit: "raw d x = Some b \<Longrightarrow> add_raw fs x (raw_path d x) = Some b"
  by (cases d) (auto simp: add_raw_def raw_def Let_def raw_path_directions split: option.splits)

lemma add_raw_miss:
  assumes "\<And>d. raw d x \<noteq> None \<Longrightarrow> raw_path d x \<noteq> p"
  shows "add_raw fs x p = fs p"
  using assms [of Request] assms [of Response]
  by (auto simp: add_raw_def raw_def Let_def split: option.splits)

lemma add_raw_source:
  "add_raw fs x p = Some b \<Longrightarrow> fs p = Some b \<or> (\<exists>d. raw d x = Some b \<and> raw_path d x = p)"
proof -
  assume a: "add_raw fs x p = Some b"
  have "responseRaw x = raw Response x" "requestRaw x = raw Request x"
    by (simp_all add: raw_def)
  with a show ?thesis
    by (auto simp: add_raw_def Let_def split: option.splits if_splits)
qed

lemma foldl_add_raw_source:
  "foldl add_raw fs exs p = Some b \<Longrightarrow>
     fs p = Some b \<or> (\<exists>e \<in> set exs. \<exists>d. raw d e = Some b \<and> raw_path d e = p)"
proof (induction exs arbitrary: b rule: rev_induct)
  case Nil
  then show ?case by simp
next
  case (snoc x xs)
  from snoc.prems have "add_raw (foldl add_raw fs xs) x p = Some b" by simp
  from add_raw_source [OF this] snoc.IH show ?case by auto
qed

lemma foldl_add_raw_last_writer:
  assumes "i < length exs" and "raw d (exs ! i) = Some b"
    and "\<forall>j. i < j \<and> j < length exs \<and> raw d (exs ! j) \<noteq> None
              \<longrightarrow> raw_path d (exs ! j) \<noteq> raw_path d (exs ! i)"
  shows "foldl add_raw fs exs (raw_path d (exs ! i)) = Some b"
  using assms
proof (induction exs rule: rev_induct)
  case Nil
  then show ?case by simp
next
  case (snoc x xs)
  show ?case
  proof (cases "i < length xs")
    case True
    then have i: "(xs @ [x]) ! i = xs ! i" by (simp add: nth_append)
    have later: "\<forall>j. i < j \<and> j < length xs \<and> raw d (xs ! j) \<noteq> None
              \<longrightarrow> raw_path d (xs ! j) \<noteq> raw_path d (xs ! i)"
    proof (intro allI impI)
      fix j assume j: "i < j \<and> j < length xs \<and> raw d (xs ! j) \<noteq> None"
      with snoc.prems(3) [rule_format, of j] i
      show "raw_path d (xs ! j) \<noteq> raw_path d (xs ! i)" by (simp add: nth_append)
    qed
    from snoc.prems(2) i have "raw d (xs ! i) = Some b" by simp
    from snoc.IH [OF True this later]
    have before: "foldl add_raw fs xs (raw_path d (xs ! i)) = Some b" .
    have miss: "\<And>d'. raw d' x \<noteq> None \<Longrightarrow> raw_path d' x \<noteq> raw_path d (xs ! i)"
    proof -
      fix d' assume r: "raw d' x \<noteq> None"
      show "raw_path d' x \<noteq> raw_path d (xs ! i)"
      proof (cases "d' = d")
        case True
        with r snoc.prems(3) [rule_format, of "length xs"] \<open>i < length xs\<close> i
        show ?thesis by simp
      next
        case False
        then show ?thesis
          using raw_path_directions [of x "xs ! i"] raw_path_directions [of "xs ! i" x]
          by (cases d; cases d') auto
      qed
    qed
    show ?thesis
      using before by (simp add: i add_raw_miss [OF miss])
  next
    case False
    with snoc.prems(1) have "i = length xs" by simp
    with snoc.prems(2) show ?thesis by (simp add: add_raw_hit)
  qed
qed

lemma build_wacz_files:
  "files (build_wacz warc toPageLine c includeRaw)
     = (if includeRaw then foldl add_raw [''archive/data.warc'' \<mapsto> warc] (exchanges c)
        else [''archive/data.warc'' \<mapsto> warc])"
  by (simp add: build_wacz_def new_WACZ_def Let_def split: option.splits)

text \<open>
  C9, as the code has it. With the include-raw flag set, the container handed to
  \<^verbatim>\<open>finalize\<close> holds, for every exchange and direction whose raw buffer is present, that
  buffer unchanged at the path made of the direction, the exchange's timestamp and the
  exchange's id, provided no later exchange with a buffer in that direction has the same
  path, that is, the same timestamp and id (the later write replaces the earlier one).
  Every file of the container is the record file or such a buffer at its path: an
  exchange or direction without a raw buffer contributes no payload, and without the
  flag there is no raw payload at all.
\<close>

theorem raw_payloads_of_export:
  "(state c \<in> set validStates \<and> toWarc c = Inr warc \<longrightarrow>
      mischiefToWacz toWarc toPageLine finalize c includeRaw
        = Inr (finalize (build_wacz warc toPageLine c includeRaw)))
   \<and> raw_path d e = ''raw/'' @ type_text d @ ''_'' @ date e @ ''_'' @ id_text e
   \<and> (i < length (exchanges c) \<and> raw d (exchanges c ! i) = Some b
       \<and> (\<forall>j. i < j \<and> j < length (exchanges c) \<and> raw d (exchanges c ! j) \<noteq> None
                \<longrightarrow> raw_path d (exchanges c ! j) \<noteq> raw_path d (exchanges c ! i))
       \<longrightarrow> files (build_wacz warc toPageLine c True) (raw_path d (exchanges c ! i)) = Some b)
   \<and> (files (build_wacz warc toPageLine c includeRaw) p = Some b' \<longrightarrow>
        p = ''archive/data.warc'' \<and> b' = warc
        \<or> includeRaw \<and> (\<exists>e \<in> set (exchanges c). \<exists>d. raw d e = Some b' \<and> raw_path d e = p))"
proof -
  have present: "i < length (exchanges c) \<and> raw d (exchanges c ! i) = Some b
       \<and> (\<forall>j. i < j \<and> j < length (exchanges c) \<and> raw d (exchanges c ! j) \<noteq> None
                \<longrightarrow> raw_path d (exchanges c ! j) \<noteq> raw_path d (exchanges c ! i))
       \<Longrightarrow> files (build_wacz warc toPageLine c True) (raw_path d (exchanges c ! i)) = Some b"
    by (simp add: build_wacz_files foldl_add_raw_last_writer)
  have only: "files (build_wacz warc toPageLine c includeRaw) p = Some b' \<Longrightarrow>
        p = ''archive/data.warc'' \<and> b' = warc
        \<or> includeRaw \<and> (\<exists>e \<in> set (exchanges c). \<exists>d. raw d e = Some b' \<and> raw_path d e = p)"
  proof (cases includeRaw)
    case True
    assume "files (build_wacz warc toPageLine c includeRaw) p = Some b'"
    with True have "foldl add_raw [''archive/data.warc'' \<mapsto> warc] (exchanges c) p = Some b'"
      by (simp add: build_wacz_files)
    from foldl_add_raw_source [OF this] True show ?thesis
      by (auto split: if_splits)
  next
    case False
    assume "files (build_wacz warc toPageLine c includeRaw) p = Some b'"
    with False show ?thesis
      by (auto simp: build_wacz_files split: if_splits)
  qed
  from present only show ?thesis
    by (simp add: encode_passes_container raw_path_def)
qed

text \<open>
  The claim as stated fails when two exchanges share timestamp and id: a request and
  its response on session \<open>s\<close> followed by a second request on \<open>s\<close> within the same
  millisecond give two exchanges with the same raw request path, and the export holds
  the second request's bytes at that path, not the first's.
\<close>

theorem raw_payload_overwritten:
  "(let c = mischief.extend ((deliver [\<lparr>at = ''T1'', dir = Request, chunk = [1], session = ''s''\<rparr>,
                      \<lparr>at = ''T1'', dir = Response, chunk = [2], session = ''s''\<rparr>,
                      \<lparr>at = ''T1'', dir = Request, chunk = [3], session = ''s''\<rparr>]
               demo_capture)\<lparr>state := COMPLETE\<rparr>)
               \<lparr>generatedExchanges = [], provenanceInfo = None\<rparr>
    in requestRaw (exchanges c ! 0) = Some [1]
       \<and> raw_path Request (exchanges c ! 0) = ''raw/request_T1_s''
       \<and> mischiefToWacz (\<lambda>c. Inr [] :: unit + buffer) (\<lambda>x. x)
            (\<lambda>w. Inr (files w ''raw/request_T1_s'') :: unit + buffer option) c True
          = Inr (Inr (Some [3])))"
proof -
  define c where "c = mischief.extend ((deliver [\<lparr>at = ''T1'', dir = Request, chunk = [1], session = ''s''\<rparr>,
                      \<lparr>at = ''T1'', dir = Response, chunk = [2], session = ''s''\<rparr>,
                      \<lparr>at = ''T1'', dir = Request, chunk = [3], session = ''s''\<rparr>]
               demo_capture)\<lparr>state := COMPLETE\<rparr>)
               \<lparr>generatedExchanges = [], provenanceInfo = None\<rparr>"
  have x: "exchanges c = [\<lparr>date = ''T1'', ex_id = Some ''s'', request = None, response = None,
                           requestRaw = Some [1], responseRaw = Some [2]\<rparr>,
                          \<lparr>date = ''T1'', ex_id = Some ''s'', request = None, response = None,
                           requestRaw = Some [3], responseRaw = None\<rparr>]"
    by (simp add: c_def demo_capture_def new_Mischief_def networkInterception_exchanges
          getOrInitExchange_def selects_def new_exchange_def append_raw_def Let_def)
  have s: "state c = COMPLETE" by (simp add: c_def)
  have "requestRaw (exchanges c ! 0) = Some [1]
       \<and> raw_path Request (exchanges c ! 0) = ''raw/request_T1_s''
       \<and> mischiefToWacz (\<lambda>c. Inr [] :: unit + buffer) (\<lambda>x. x)
            (\<lambda>w. Inr (files w ''raw/request_T1_s'') :: unit + buffer option) c True
          = Inr (Inr (Some [3]))"
    by (simp add: x s mischiefToWacz_def validStates_def build_wacz_files add_raw_def
          raw_path_def id_text_def Let_def)
  then show ?thesis
    unfolding Let_def c_def .
qed

theorem raw_payloads_of_export_witness:
  "(let c = mischief.extend ((deliver [\<lparr>at = ''T1'', dir = Request, chunk = [1], session = ''s''\<rparr>,
                      \<lparr>at = ''T2'', dir = Response, chunk = [2], session = ''s''\<rparr>,
                      \<lparr>at = ''T3'', dir = Request, chunk = [3], session = ''s''\<rparr>]
               demo_capture)\<lparr>state := COMPLETE\<rparr>)
               \<lparr>generatedExchanges = [], provenanceInfo = None\<rparr>;
        w = build_wacz [9] (\<lambda>x. x) c True
    in files w ''raw/request_T1_s'' = Some [1] \<and> files w ''raw/response_T1_s'' = Some [2]
       \<and> files w ''raw/request_T3_s'' = Some [3] \<and> files w ''raw/response_T3_s'' = None
       \<and> files w ''archive/data.warc'' = Some [9])"
proof -
  define c where "c = mischief.extend ((deliver [\<lparr>at = ''T1'', dir = Request, chunk = [1], session = ''s''\<rparr>,
                      \<lparr>at = ''T2'', dir = Response, chunk = [2], session = ''s''\<rparr>,
                      \<lparr>at = ''T3'', dir = Request, chunk = [3], session = ''s''\<rparr>]
               demo_capture)\<lparr>state := COMPLETE\<rparr>)
               \<lparr>generatedExchanges = [], provenanceInfo = None\<rparr>"
  define e1 where "e1 = \<lparr>date = ''T1'', ex_id = Some ''s'', request = None, response = None,
                           requestRaw = Some [1 :: 8 word], responseRaw = Some [2 :: 8 word]\<rparr>"
  define e2 where "e2 = \<lparr>date = ''T3'', ex_id = Some ''s'', request = None, response = None,
                           requestRaw = Some [3 :: 8 word], responseRaw = None\<rparr>"
  have x: "exchanges c = [e1, e2]"
    by (simp add: c_def e1_def e2_def demo_capture_def new_Mischief_def
          networkInterception_exchanges getOrInitExchange_def selects_def new_exchange_def
          append_raw_def Let_def)
  have p: "raw_path Request e1 = ''raw/request_T1_s''" "raw_path Response e1 = ''raw/response_T1_s''"
    "raw_path Request e2 = ''raw/request_T3_s''" "raw_path Response e2 = ''raw/response_T3_s''"
    by (simp_all add: raw_path_def id_text_def e1_def e2_def)
  have r: "raw Request e1 = Some [1]" "raw Response e1 = Some [2]" "raw Request e2 = Some [3]"
    "raw Response e2 = None"
    by (simp_all add: raw_def e1_def e2_def)
  have hyp: "0 < length (exchanges c) \<and> raw Request (exchanges c ! 0) = Some [1]
       \<and> (\<forall>j. 0 < j \<and> j < length (exchanges c) \<and> raw Request (exchanges c ! j) \<noteq> None
                \<longrightarrow> raw_path Request (exchanges c ! j) \<noteq> raw_path Request (exchanges c ! 0))"
  proof (intro conjI allI impI)
    show "0 < length (exchanges c)" by (simp add: x)
    show "raw Request (exchanges c ! 0) = Some [1]" by (simp add: x r)
    fix j assume "0 < j \<and> j < length (exchanges c) \<and> raw Request (exchanges c ! j) \<noteq> None"
    then have "j = 1" by (simp add: x)
    then show "raw_path Request (exchanges c ! j) \<noteq> raw_path Request (exchanges c ! 0)"
      by (simp add: x p)
  qed
  from raw_payloads_of_export [where c = c and warc = "[9]" and toPageLine = "\<lambda>x. x"
      and includeRaw = True and toWarc = "\<lambda>c. Inr [9] :: unit + buffer"
      and finalize = "\<lambda>w. Inr w :: unit + entry wacz" and e = e1 and i = 0 and d = Request
      and b = "[1]" and p = "[]" and b' = "[]"] hyp
  have "files (build_wacz [9] (\<lambda>x. x) c True) (raw_path Request (exchanges c ! 0)) = Some [1]"
    by blast
  then have a: "files (build_wacz [9] (\<lambda>x. x) c True) ''raw/request_T1_s'' = Some [1]"
    by (simp add: x p)
  have rest: "files (build_wacz [9] (\<lambda>x. x) c True) ''raw/response_T1_s'' = Some [2]
      \<and> files (build_wacz [9] (\<lambda>x. x) c True) ''raw/request_T3_s'' = Some [3]
      \<and> files (build_wacz [9] (\<lambda>x. x) c True) ''raw/response_T3_s'' = None
      \<and> files (build_wacz [9] (\<lambda>x. x) c True) ''archive/data.warc'' = Some [9]"
    by (simp add: build_wacz_files x add_raw_def raw_path_def id_text_def e1_def e2_def)
  from a rest show ?thesis
    unfolding Let_def c_def by simp
qed

section \<open>What the constructor of an exchange copies\<close>





















end
